theory Spec2Isabelle
  imports Complex_Main "HOL-Library.Product_Lexorder" "HOL-Library.While_Combinator"
begin

section \<open>Arrays\<close>

text \<open>
  A two-dimensional NumPy array is a list of rows. Label images hold non-negative
  integers, masks hold booleans. A position is a (row, column) pair.
\<close>

type_synonym image = "nat list list"
type_synonym mask = "bool list list"
type_synonym pos = "nat \<times> nat"

datatype error = ValueError string | IndexError | KeyError string | TypeError | UnboundLocalError string

text \<open>\<^verbatim>\<open>a.size\<close>: the number of elements.\<close>

definition array_size :: "'a list list \<Rightarrow> nat" where
  "array_size a = sum_list (map length a)"

text \<open>\<^verbatim>\<open>np.unique(a)\<close>: the sorted distinct values.\<close>

definition np_unique :: "image \<Rightarrow> nat list" where
  "np_unique a = sort (remdups (concat a))"

text \<open>The number of pixels of \<open>a\<close> that hold \<open>v\<close>.\<close>

definition count_label :: "image \<Rightarrow> nat \<Rightarrow> nat" where
  "count_label a v = length (filter (\<lambda>x. x = v) (concat a))"

text \<open>
  \<^verbatim>\<open>measure.regionprops(a)\<close>: one region for each positive value that occurs in
  \<open>a\<close>, in ascending order of the value, with the number of pixels holding it.
\<close>

record regionprop =
  rlabel :: nat
  area :: nat

definition regionprops :: "image \<Rightarrow> regionprop list" where
  "regionprops a =
     map (\<lambda>l. \<lparr>rlabel = l, area = count_label a l\<rparr>) (filter (\<lambda>l. l \<noteq> 0) (np_unique a))"

text \<open>Reading a pixel, and the positions of an array in raster order.\<close>

definition px :: "'a list list \<Rightarrow> pos \<Rightarrow> 'a" where
  "px a p = a ! fst p ! snd p"

definition positions :: "'a list list \<Rightarrow> pos list" where
  "positions a = concat (map (\<lambda>i. map (Pair i) [0..<length (a ! i)]) [0..<length a])"

section \<open>Connected-component labelling\<close>

text \<open>
  \<^verbatim>\<open>skimage.measure.label(a, background=0)\<close> with its default (full) connectivity: two
  pixels are connected when they are neighbours, diagonals included, and hold the same
  value; background pixels keep 0; the components are numbered from 1 in the raster
  order of their first pixel.
\<close>

definition adjacent8 :: "pos \<Rightarrow> pos \<Rightarrow> bool" where
  "adjacent8 p q \<longleftrightarrow>
     p \<noteq> q \<and> fst p \<le> fst q + 1 \<and> fst q \<le> fst p + 1 \<and> snd p \<le> snd q + 1 \<and> snd q \<le> snd p + 1"

definition neighbours :: "image \<Rightarrow> pos \<Rightarrow> pos list" where
  "neighbours a p =
     (if p \<in> set (positions a)
      then filter (\<lambda>q. adjacent8 p q \<and> px a q = px a p) (positions a) else [])"

definition conn8 :: "image \<Rightarrow> pos \<Rightarrow> pos \<Rightarrow> bool" where
  "conn8 a p q \<longleftrightarrow> (p, q) \<in> {(x, y). y \<in> set (neighbours a x)}\<^sup>*"

text \<open>The first pixel, in raster order, of the component of \<open>p\<close>.\<close>

definition comp_root :: "image \<Rightarrow> pos \<Rightarrow> pos" where
  "comp_root a p = (case find (conn8 a p) (positions a) of Some r \<Rightarrow> r | None \<Rightarrow> p)"

definition is_root :: "image \<Rightarrow> pos \<Rightarrow> bool" where
  "is_root a r \<longleftrightarrow> px a r \<noteq> 0 \<and> comp_root a r = r"

text \<open>The number of components whose first pixel is at or before \<open>x\<close>.\<close>

definition rank :: "image \<Rightarrow> pos \<Rightarrow> nat" where
  "rank a x = length (filter (\<lambda>r. is_root a r \<and> r \<le> x) (positions a))"

definition label_at :: "image \<Rightarrow> pos \<Rightarrow> nat" where
  "label_at a p = (if px a p = 0 then 0 else rank a (comp_root a p))"

definition label :: "image \<Rightarrow> image" where
  "label a = map (\<lambda>i. map (\<lambda>j. label_at a (i, j)) [0..<length (a ! i)]) [0..<length a]"

text \<open>The number of components of \<open>a\<close>.\<close>

definition ncomponents :: "image \<Rightarrow> nat" where
  "ncomponents a = length (filter (is_root a) (positions a))"

section \<open>get_minimum_area_to_remove\<close>

text \<open>\<^verbatim>\<open>np.mean(areas)\<close> and \<^verbatim>\<open>np.any(areas)\<close> on the list of region areas.\<close>

definition np_mean :: "nat list \<Rightarrow> rat" where
  "np_mean xs = of_nat (sum_list xs) / of_nat (length xs)"

definition np_any :: "nat list \<Rightarrow> bool" where
  "np_any xs = list_ex (\<lambda>x. x \<noteq> 0) xs"

definition get_minimum_area_to_remove :: "image \<Rightarrow> rat \<Rightarrow> error + rat" where
  "get_minimum_area_to_remove connected_components percentage =
     (if array_size connected_components = 0
      then Inl (ValueError ''connected_components cannot be empty'')
      else
        let areas = map area (regionprops connected_components);
            min_area = (if np_any areas then percentage * np_mean areas else 0);
            min_area = max min_area 4;
            min_area = 30
        in Inr min_area)"

section \<open>Element-wise operations\<close>

text \<open>
  The element-wise operations of NumPy on arrays of one shape: \<^verbatim>\<open>a == v\<close>,
  \<^verbatim>\<open>a > 0\<close>, \<^verbatim>\<open>m & n\<close> (also \<^verbatim>\<open>m * n\<close> on booleans), \<^verbatim>\<open>np.logical_or\<close>,
  \<^verbatim>\<open>np.sum(m)\<close>, \<^verbatim>\<open>np.any(m)\<close>, \<^verbatim>\<open>m.astype(int)\<close> and the masked assignment
  \<^verbatim>\<open>a[m] = v\<close>. Every use in the program pairs arrays of one shape; the results
  below say so where it matters.
\<close>

definition same_shape :: "'a list list \<Rightarrow> 'b list list \<Rightarrow> bool" where
  "same_shape a b \<longleftrightarrow> map length a = map length b"

definition eq_mask :: "image \<Rightarrow> nat \<Rightarrow> mask" where
  "eq_mask a v = map (map (\<lambda>x. x = v)) a"

definition gt0_mask :: "image \<Rightarrow> mask" where
  "gt0_mask a = map (map (\<lambda>x. 0 < x)) a"

definition mask_and :: "mask \<Rightarrow> mask \<Rightarrow> mask" where
  "mask_and m n = map2 (map2 (\<and>)) m n"

definition logical_or :: "mask \<Rightarrow> mask \<Rightarrow> mask" where
  "logical_or m n = map2 (map2 (\<or>)) m n"

definition mask_sum :: "mask \<Rightarrow> nat" where
  "mask_sum m = length (filter id (concat m))"

definition mask_any :: "mask \<Rightarrow> bool" where
  "mask_any m = list_ex id (concat m)"

definition astype_int :: "mask \<Rightarrow> image" where
  "astype_int m = map (map (\<lambda>b. if b then 1 else 0)) m"

definition assign :: "image \<Rightarrow> mask \<Rightarrow> nat \<Rightarrow> image" where
  "assign a m v = map2 (map2 (\<lambda>x b. if b then v else x)) a m"

text \<open>
  The quotient \<^verbatim>\<open>np.sum(x) / np.sum(y)\<close> of two counts. A zero divisor gives NaN (the
  dividend, a count inside the divisor's mask, is zero too), for which every comparison
  is false: it is \<open>None\<close>. The quotient is kept exact. The program holds the double
  nearest to it, and rounding to nearest is monotone and fixes 0 and 1, so the tests
  \<^verbatim>\<open>ratio > 0\<close> and \<^verbatim>\<open>ratio <= 1.0\<close> (the maximum every caller passes) come out
  the same on both.
\<close>

definition true_divide :: "nat \<Rightarrow> nat \<Rightarrow> rat option" where
  "true_divide n m = (if m = 0 then None else Some (of_nat n / of_nat m))"

section \<open>Overlap queries\<close>

text \<open>
  A marker argument is an array of booleans or of integers; the queries refuse the second.
\<close>

datatype marker = BoolArray mask | IntArray image

text \<open>
  The loop of get_overlapping_components over \<^verbatim>\<open>np.unique(labels).astype(np.uint16)\<close>:
  each label is taken modulo \<open>2^16\<close>, label 0 is skipped, and the first label that passes
  the test is returned with its mask and ratio. The required component size 4000 is
  written in the loop.
\<close>

fun overlap_scan :: "image \<Rightarrow> mask \<Rightarrow> rat \<Rightarrow> nat list \<Rightarrow> (nat \<times> mask \<times> rat) option" where
  "overlap_scan labels mk maximum_cells_overlap [] = None"
| "overlap_scan labels mk maximum_cells_overlap (l # ls) =
     (let label_value = l mod 65536 in
      if label_value = 0 then overlap_scan labels mk maximum_cells_overlap ls
      else
        let current_image_mask = eq_mask labels label_value in
        (case true_divide (mask_sum (mask_and current_image_mask mk)) (mask_sum mk) of
           None \<Rightarrow> overlap_scan labels mk maximum_cells_overlap ls
         | Some overlap_ratio \<Rightarrow>
             if overlap_ratio > 0 \<and> overlap_ratio \<le> maximum_cells_overlap
                \<and> mask_sum current_image_mask \<ge> 4000
             then Some (label_value, current_image_mask, overlap_ratio)
             else overlap_scan labels mk maximum_cells_overlap ls))"

definition get_overlapping_components ::
  "image \<Rightarrow> marker \<Rightarrow> rat \<Rightarrow> error + (nat \<times> mask \<times> rat) option" where
  "get_overlapping_components original_image mk maximum_cells_overlap =
     (case mk of
        IntArray _ \<Rightarrow> Inl (ValueError ''Mask of the marker has to be boolean.'')
      | BoolArray m \<Rightarrow>
          let labels = label original_image;
              unique_labels = np_unique labels
          in Inr (overlap_scan labels m maximum_cells_overlap unique_labels))"

fun nuclei_scan :: "image \<Rightarrow> mask \<Rightarrow> nat \<Rightarrow> nat list \<Rightarrow> (nat \<times> mask \<times> rat) option" where
  "nuclei_scan labels mk minimum_component_dim [] = None"
| "nuclei_scan labels mk minimum_component_dim (l # ls) =
     (let label_value = l mod 65536 in
      if label_value = 0 then nuclei_scan labels mk minimum_component_dim ls
      else
        let current_image_mask = eq_mask labels label_value in
        (case true_divide (mask_sum (mask_and current_image_mask mk)) (mask_sum mk) of
           None \<Rightarrow> nuclei_scan labels mk minimum_component_dim ls
         | Some overlap_ratio \<Rightarrow>
             if overlap_ratio > 0 \<and> mask_sum current_image_mask \<ge> minimum_component_dim
             then Some (label_value, current_image_mask, overlap_ratio)
             else nuclei_scan labels mk minimum_component_dim ls))"

definition get_nuclei_connected_components ::
  "image \<Rightarrow> marker \<Rightarrow> nat \<Rightarrow> error + (nat \<times> mask \<times> rat) option" where
  "get_nuclei_connected_components original_image mk minimum_component_dim =
     (case mk of
        IntArray _ \<Rightarrow> Inl (ValueError ''Mask of the marker has to be boolean.'')
      | BoolArray m \<Rightarrow>
          let labels = label original_image;
              unique_labels = np_unique labels
          in Inr (nuclei_scan labels m minimum_component_dim unique_labels))"

text \<open>get_maximum_label: \<^verbatim>\<open>np.max\<close> raises ValueError on an array without elements.\<close>

definition get_maximum_label :: "image \<Rightarrow> error + nat" where
  "get_maximum_label img =
     (let unique_labels = np_unique img in
      if unique_labels = []
      then Inl (ValueError ''zero-size array to reduction operation maximum which has no identity'')
      else Inr (Max (set unique_labels)))"

section \<open>remove_smaller_areas and refine_objects_by_overlapping\<close>

text \<open>
  A loop whose body can raise: the first error ends it.
\<close>

fun fold_err :: "('b \<Rightarrow> 'a \<Rightarrow> error + 'a) \<Rightarrow> 'b list \<Rightarrow> 'a \<Rightarrow> error + 'a" where
  "fold_err f [] s = Inr s"
| "fold_err f (x # xs) s = (case f x s of Inl e \<Rightarrow> Inl e | Inr s' \<Rightarrow> fold_err f xs s')"

text \<open>The body of the loop of remove_smaller_areas, on the working copy.\<close>

definition remove_step :: "int \<Rightarrow> regionprop \<Rightarrow> image \<Rightarrow> image" where
  "remove_step area_threshold prop filtered_seeds =
     (if int (area prop) \<le> area_threshold
      then assign filtered_seeds (eq_mask filtered_seeds (rlabel prop)) 0
      else filtered_seeds)"

definition remove_smaller_areas :: "image \<Rightarrow> int \<Rightarrow> error + image" where
  "remove_smaller_areas seeds area_threshold =
     (if array_size seeds = 0 then Inl (ValueError ''seeds cannot be empty'')
      else if area_threshold < 0
      then Inl (ValueError ''area_threshold must be a non-negative integer'')
      else
        let props = regionprops seeds;
            filtered_seeds = fold (remove_step area_threshold) props seeds
        in Inr (label filtered_seeds))"

text \<open>
  The body of the loop of refine_objects_by_overlapping. The regions are those of the
  working copy at the start; a region's area is read when its turn comes, from the same
  array, where only the pixels of earlier regions have changed since.
\<close>

definition refine_step :: "mask \<Rightarrow> nat \<Rightarrow> regionprop \<Rightarrow> image \<Rightarrow> image" where
  "refine_step refiner_mask max_cell_area region_prop refined_image =
     (if area region_prop < max_cell_area then
        let current_label_mask = eq_mask refined_image (rlabel region_prop);
            overlap_mask = mask_and current_label_mask refiner_mask
        in if mask_any overlap_mask
           then assign (assign refined_image current_label_mask 0) overlap_mask (rlabel region_prop)
           else assign refined_image current_label_mask 0
      else refined_image)"

definition refine_objects_by_overlapping :: "image \<Rightarrow> image \<Rightarrow> nat \<Rightarrow> image" where
  "refine_objects_by_overlapping base_image refiner_image max_cell_area =
     (let refined_image = base_image;
          refiner_mask = gt0_mask refiner_image
      in fold (refine_step refiner_mask max_cell_area) (regionprops refined_image) refined_image)"

section \<open>add_objects_by_overlapping and add_nuclei_by_overlapping\<close>

text \<open>
  \<^verbatim>\<open>skimage.morphology.square(n)\<close> and \<^verbatim>\<open>dilation(a, footprint)\<close> for a square
  footprint of odd side: every pixel takes the maximum of its window, clipped at the
  borders of the array. The result has the element type of its argument.
\<close>

definition square :: "nat \<Rightarrow> nat list list" where
  "square n = replicate n (replicate n 1)"

definition dilation :: "image \<Rightarrow> nat list list \<Rightarrow> image" where
  "dilation a footprint =
     (let r = length footprint div 2 in
      map (\<lambda>i. map (\<lambda>j.
          fold max (concat (map (\<lambda>i'. map (\<lambda>j'. px a (i', j'))
                       [j - r ..< min (length (a ! i')) (j + r + 1)])
                     [i - r ..< min (length a) (i + r + 1)])) 0)
        [0..<length (a ! i)]) [0..<length a])"

text \<open>
  \<^verbatim>\<open>a[idx] = v\<close> with an array \<open>idx\<close> of integers is NumPy's integer-array indexing:
  every element of \<open>idx\<close> selects a row of \<open>a\<close>, and each selected row is filled with
  \<open>v\<close>. An element that is not a row number raises IndexError.
\<close>

definition fancy_assign :: "image \<Rightarrow> image \<Rightarrow> nat \<Rightarrow> error + image" where
  "fancy_assign a idx v =
     (if list_all (\<lambda>k. k < length a) (concat idx)
      then Inr (map (\<lambda>i. if i \<in> set (concat idx) then map (\<lambda>_. v) (a ! i) else a ! i)
                  [0..<length a])
      else Inl IndexError)"

text \<open>
  The working image of the two passes is a copy of the base image and has its integer
  dtype, unsigned or signed, of some number of bits. The next usable label is a scalar of
  that dtype, so its arithmetic wraps, and an assignment into the image casts the value
  to the dtype: both reduce modulo 2 to the number of bits. (A release of NumPy that
  widens the scalar sum still casts at the assignment, and writes the same pixels.)
  Values are kept as residues. For a signed dtype the upper half of the residues are its
  negative values: a label image does not hold them on entry, and the passes tell a value
  written later from the others by equality only. The values that a label image of the
  dtype can hold on entry are those below 2 to the number of value bits.
\<close>

datatype dtype = Unsigned nat | Signed nat

fun dtype_bits :: "dtype \<Rightarrow> nat" where
  "dtype_bits (Unsigned w) = w"
| "dtype_bits (Signed w) = w"

fun value_bits :: "dtype \<Rightarrow> nat" where
  "value_bits (Unsigned w) = w"
| "value_bits (Signed w) = w - 1"

definition cast_dtype :: "dtype \<Rightarrow> nat \<Rightarrow> nat" where
  "cast_dtype dt v = v mod 2 ^ dtype_bits dt"

text \<open>
  In add_nuclei_by_overlapping the parameter \<^verbatim>\<open>cells_overlap\<close> is never read; the model
  leaves it out.
\<close>

text \<open>
  The body of the loop of add_objects_by_overlapping on the working image and the next
  usable label. \<open>fg\<close> is the foreground of the base image, taken once before the loop.
  The dilated mask is an array of integers (\<^verbatim>\<open>current_mask.astype(int)\<close> dilated), so
  the assignment through it is the integer-array indexing above. Calls that write images
  to disk are left out.
\<close>

definition add_objects_step ::
  "dtype \<Rightarrow> image \<Rightarrow> mask \<Rightarrow> rat \<Rightarrow> nat \<Rightarrow> regionprop \<Rightarrow> image \<times> nat \<Rightarrow> error + image \<times> nat" where
  "add_objects_step dt single_channel_image fg cells_overlap min_cell_area reg_prop st =
     (let img = fst st; next_usable_label = snd st;
          current_mask = eq_mask single_channel_image (rlabel reg_prop);
          overlap_mask = mask_and current_mask fg
      in if mask_sum overlap_mask > 0 then
           (case get_overlapping_components img (BoolArray current_mask) cells_overlap of
              Inl e \<Rightarrow> Inl e
            | Inr None \<Rightarrow> Inr (img, next_usable_label)
            | Inr (Some (component_label, component_mask, overlap_ratio)) \<Rightarrow>
                if mask_sum component_mask \<ge> min_cell_area then
                  let dilated_current_mask = dilation (astype_int current_mask) (square 9) in
                  (case fancy_assign img dilated_current_mask 0 of
                     Inl e \<Rightarrow> Inl e
                   | Inr img' \<Rightarrow>
                       Inr (assign img' current_mask (cast_dtype dt next_usable_label),
                            cast_dtype dt (next_usable_label + 1)))
                else Inr (img, next_usable_label))
         else Inr (assign img current_mask (cast_dtype dt next_usable_label),
                   cast_dtype dt (next_usable_label + 1)))"

definition add_objects_loop ::
  "dtype \<Rightarrow> image \<Rightarrow> image \<Rightarrow> rat \<Rightarrow> nat \<Rightarrow> error + image \<times> nat" where
  "add_objects_loop dt base_image single_channel_image cells_overlap min_cell_area =
     (case get_maximum_label base_image of
        Inl e \<Rightarrow> Inl e
      | Inr max_label \<Rightarrow>
          fold_err (add_objects_step dt single_channel_image (gt0_mask base_image)
                      cells_overlap min_cell_area)
            (regionprops single_channel_image) (base_image, cast_dtype dt (max_label + 1)))"

definition add_objects_by_overlapping ::
  "dtype \<Rightarrow> image \<Rightarrow> image \<Rightarrow> rat \<Rightarrow> nat \<Rightarrow> error + image" where
  "add_objects_by_overlapping dt base_image single_channel_image cells_overlap min_cell_area =
     (case add_objects_loop dt base_image single_channel_image cells_overlap min_cell_area of
        Inl e \<Rightarrow> Inl e
      | Inr (img, _) \<Rightarrow> Inr (label img))"

text \<open>
  The body of the loop of add_nuclei_by_overlapping. The label of the component comes from
  the query as a 16-bit scalar and is cast to the dtype of the image when it is written.
\<close>

definition add_nuclei_step ::
  "dtype \<Rightarrow> image \<Rightarrow> mask \<Rightarrow> nat \<Rightarrow> regionprop \<Rightarrow> image \<times> nat \<Rightarrow> error + image \<times> nat" where
  "add_nuclei_step dt single_channel_image fg min_cell_area reg_prop st =
     (let img = fst st; next_usable_label = snd st;
          current_mask = eq_mask single_channel_image (rlabel reg_prop);
          overlap_mask = mask_and current_mask fg
      in if mask_sum overlap_mask > 0 then
           (case get_nuclei_connected_components img (BoolArray current_mask) min_cell_area of
              Inl e \<Rightarrow> Inl e
            | Inr None \<Rightarrow> Inr (img, next_usable_label)
            | Inr (Some (component_label, component_mask, overlap_ratio)) \<Rightarrow>
                let final_mask = logical_or component_mask current_mask
                in Inr (assign img final_mask (cast_dtype dt component_label),
                        next_usable_label))
         else Inr (assign img current_mask (cast_dtype dt next_usable_label),
                   cast_dtype dt (next_usable_label + 1)))"

definition add_nuclei_loop :: "dtype \<Rightarrow> image \<Rightarrow> image \<Rightarrow> nat \<Rightarrow> error + image \<times> nat" where
  "add_nuclei_loop dt base_image single_channel_image min_cell_area =
     (case get_maximum_label base_image of
        Inl e \<Rightarrow> Inl e
      | Inr max_label \<Rightarrow>
          fold_err (add_nuclei_step dt single_channel_image (gt0_mask base_image)
                      min_cell_area)
            (regionprops single_channel_image) (base_image, cast_dtype dt (max_label + 1)))"

definition add_nuclei_by_overlapping :: "dtype \<Rightarrow> image \<Rightarrow> image \<Rightarrow> nat \<Rightarrow> error + image" where
  "add_nuclei_by_overlapping dt base_image single_channel_image min_cell_area =
     (case add_nuclei_loop dt base_image single_channel_image min_cell_area of
        Inl e \<Rightarrow> Inl e
      | Inr (img, _) \<Rightarrow> Inr (label img))"

section \<open>simple_binary_mask_post_processing and fusion_post_processing\<close>

text \<open>
  A prediction is an array of probabilities with a leading channel axis; probabilities
  are exact rationals and the threshold is the rational \<open>2/10\<close>, which the constant
  \<^verbatim>\<open>0.2\<close> of the program equals up to its rounding. \<^verbatim>\<open>np.squeeze\<close> drops the axes
  of length one. A plane of one row and one column is left without any axis, and
  \<^verbatim>\<open>measure.label\<close> raises ValueError on it. On a plane with a single row or a single
  column the labelled array has one axis, and \<^verbatim>\<open>regionprops\<close> inside
  remove_smaller_areas raises TypeError on it, after the two checks of that function. The
  model keeps such an array as it is where no region is taken from it. The final
  \<^verbatim>\<open>astype(np.uint16)\<close> reduces modulo \<open>2^16\<close>.
\<close>

type_synonym prediction = "rat list list list"

definition bind_err :: "error + 'a \<Rightarrow> ('a \<Rightarrow> error + 'b) \<Rightarrow> error + 'b" where
  "bind_err m f = (case m of Inl e \<Rightarrow> Inl e | Inr x \<Rightarrow> f x)"

definition squeezed_ndim :: "'a list list \<Rightarrow> nat" where
  "squeezed_ndim a =
     (if length a = 1 then 0 else 1) + (if a \<noteq> [] \<and> length (hd a) = 1 then 0 else 1)"

definition astype_uint16 :: "image \<Rightarrow> image" where
  "astype_uint16 a = map (map (\<lambda>x. x mod 65536)) a"

definition simple_binary_mask_post_processing ::
  "prediction \<Rightarrow> prediction \<Rightarrow> 'args \<Rightarrow> bool \<Rightarrow> int \<Rightarrow> error + image" where
  "simple_binary_mask_post_processing msk original_image args denoise areas_to_remove =
     (let threshold = 2 / 10; binary_ch = 1 in
      if length msk \<le> binary_ch then Inl IndexError
      else if squeezed_ndim (msk ! binary_ch) = 0
      then Inl (ValueError ''Connectivity for 0D image should be in [1, ..., 0]. Got 0.'')
      else
        let processed_mask = map (map (\<lambda>x. x > threshold)) (msk ! binary_ch);
            prediction_instance = label (astype_int processed_mask)
        in bind_err
             (if denoise then
                if array_size prediction_instance \<noteq> 0 \<and> 0 \<le> areas_to_remove
                   \<and> squeezed_ndim prediction_instance \<noteq> 2
                then Inl TypeError
                else remove_smaller_areas prediction_instance areas_to_remove
              else Inr prediction_instance)
             (\<lambda>prediction_instance. Inr (astype_uint16 prediction_instance)))"

text \<open>A dictionary lookup \<^verbatim>\<open>d[k]\<close>.\<close>

definition getitem :: "(string \<rightharpoonup> 'v) \<Rightarrow> string \<Rightarrow> error + 'v" where
  "getitem d k = (case d k of None \<Rightarrow> Inl (KeyError k) | Some v \<Rightarrow> Inr v)"

text \<open>
  fusion_post_processing. The name \<^verbatim>\<open>refined_evs_prediction\<close> is bound only inside the
  branch of \<^verbatim>\<open>just_evs\<close>; the return statement reads it on both paths. The base image
  of add_nuclei_by_overlapping comes from simple_binary_mask_post_processing and is of
  type uint16; the base image of add_objects_by_overlapping is the copy that
  refine_objects_by_overlapping makes of a result of \<^verbatim>\<open>measure.label\<close>, which is of the
  64-bit type \<^verbatim>\<open>intp\<close>.
\<close>

definition fusion_post_processing ::
  "(string \<rightharpoonup> prediction) \<Rightarrow> (string \<rightharpoonup> prediction) \<Rightarrow> (string \<rightharpoonup> prediction) \<Rightarrow> 'args \<Rightarrow> bool
   \<Rightarrow> error + image \<times> image" where
  "fusion_post_processing prediction_dict sc_prediction_dict nuclei_prediction_dict args just_evs =
     bind_err (getitem prediction_dict ''original_image'') (\<lambda>original_image.
     bind_err (getitem sc_prediction_dict ''original_image'') (\<lambda>sc_original_image.
     bind_err (getitem nuclei_prediction_dict ''original_image'') (\<lambda>nuclei_original_image.
     bind_err (getitem prediction_dict ''mask'') (\<lambda>msk.
     bind_err (getitem sc_prediction_dict ''mask'') (\<lambda>sc_mask.
     bind_err (getitem nuclei_prediction_dict ''mask'') (\<lambda>nuclei_mask.
     bind_err (simple_binary_mask_post_processing msk original_image args True 30)
       (\<lambda>prediction_instance.
     if just_evs then
       bind_err (simple_binary_mask_post_processing sc_mask sc_original_image args True 30)
         (\<lambda>sc_prediction_instance.
       bind_err (simple_binary_mask_post_processing nuclei_mask nuclei_original_image args
                   True 1000)
         (\<lambda>nuclei_prediction_instance.
       bind_err (add_nuclei_by_overlapping (Unsigned 16) prediction_instance nuclei_prediction_instance
                   1000)
         (\<lambda>prediction_instance.
       let processed_prediction =
             refine_objects_by_overlapping prediction_instance sc_prediction_instance 1000
       in bind_err (add_objects_by_overlapping (Signed 64) processed_prediction sc_prediction_instance
                      1 1000)
         (\<lambda>refined_evs_prediction.
       Inr (astype_uint16 refined_evs_prediction, astype_uint16 refined_evs_prediction)))))
     else Inl (UnboundLocalError ''refined_evs_prediction''))))))))"

section \<open>The merge passes on a store\<close>

text \<open>
  The four passes work on a copy of their first argument. To say that the caller's arrays
  are left alone, arrays live in a store, a list of arrays addressed by position: a pass
  takes the addresses of its arguments, \<^verbatim>\<open>copy\<close> and every call that builds an
  array append a cell, and an assignment into an array replaces the cell it is in. The
  loop bodies are the ones above, applied to the cell of the working copy. Boolean masks
  are temporaries of one statement and stay outside the store. The two passes that count
  labels take the dtype of the array at the first address.
\<close>

type_synonym store = "image list"

definition remove_smaller_areas_st :: "nat \<Rightarrow> int \<Rightarrow> store \<Rightarrow> (error + nat) \<times> store" where
  "remove_smaller_areas_st seeds area_threshold h =
     (if array_size (h ! seeds) = 0 then (Inl (ValueError ''seeds cannot be empty''), h)
      else if area_threshold < 0
      then (Inl (ValueError ''area_threshold must be a non-negative integer''), h)
      else
        let props = regionprops (h ! seeds);
            filtered_seeds = length h;
            h = h @ [h ! seeds];
            h = fold (\<lambda>prop h. h[filtered_seeds :=
                        remove_step area_threshold prop (h ! filtered_seeds)]) props h
        in (Inr (length h), h @ [label (h ! filtered_seeds)]))"

definition refine_objects_by_overlapping_st :: "nat \<Rightarrow> nat \<Rightarrow> nat \<Rightarrow> store \<Rightarrow> nat \<times> store" where
  "refine_objects_by_overlapping_st base_image refiner_image max_cell_area h =
     (let refined_image = length h;
          h = h @ [h ! base_image];
          refiner_mask = gt0_mask (h ! refiner_image);
          h = fold (\<lambda>region_prop h. h[refined_image :=
                      refine_step refiner_mask max_cell_area region_prop (h ! refined_image)])
                (regionprops (h ! refined_image)) h
      in (refined_image, h))"

text \<open>
  A loop body that works on the cell \<open>c\<close> of the store and on the next usable label.
\<close>

definition in_cell ::
  "nat \<Rightarrow> (regionprop \<Rightarrow> image \<times> nat \<Rightarrow> error + image \<times> nat)
   \<Rightarrow> regionprop \<Rightarrow> store \<times> nat \<Rightarrow> error + store \<times> nat" where
  "in_cell c step reg_prop st =
     (case step reg_prop (fst st ! c, snd st) of
        Inl e \<Rightarrow> Inl e
      | Inr (img, next_usable_label) \<Rightarrow> Inr ((fst st)[c := img], next_usable_label))"

text \<open>
  When the loop raises, the working copy is garbage of the call; the store the caller
  sees is the one with the copy appended.
\<close>

definition add_objects_by_overlapping_st ::
  "dtype \<Rightarrow> nat \<Rightarrow> nat \<Rightarrow> rat \<Rightarrow> nat \<Rightarrow> store \<Rightarrow> (error + nat) \<times> store" where
  "add_objects_by_overlapping_st dt base_image single_channel_image cells_overlap
       min_cell_area h =
     (let c = length h;
          h1 = h @ [h ! base_image];
          fg = gt0_mask (h1 ! c)
      in case get_maximum_label (h1 ! base_image) of
           Inl e \<Rightarrow> (Inl e, h1)
         | Inr max_label \<Rightarrow>
             (case fold_err
                     (in_cell c (add_objects_step dt (h1 ! single_channel_image) fg
                        cells_overlap min_cell_area))
                     (regionprops (h1 ! single_channel_image))
                     (h1, cast_dtype dt (max_label + 1)) of
                Inl e \<Rightarrow> (Inl e, h1)
              | Inr (h2, _) \<Rightarrow> (Inr (length h2), h2 @ [label (h2 ! c)])))"

definition add_nuclei_by_overlapping_st ::
  "dtype \<Rightarrow> nat \<Rightarrow> nat \<Rightarrow> nat \<Rightarrow> store \<Rightarrow> (error + nat) \<times> store" where
  "add_nuclei_by_overlapping_st dt base_image single_channel_image min_cell_area h =
     (let c = length h;
          h1 = h @ [h ! base_image];
          fg = gt0_mask (h1 ! c)
      in case get_maximum_label (h1 ! base_image) of
           Inl e \<Rightarrow> (Inl e, h1)
         | Inr max_label \<Rightarrow>
             (case fold_err
                     (in_cell c (add_nuclei_step dt (h1 ! single_channel_image) fg
                        min_cell_area))
                     (regionprops (h1 ! single_channel_image))
                     (h1, cast_dtype dt (max_label + 1)) of
                Inl e \<Rightarrow> (Inl e, h1)
              | Inr (h2, _) \<Rightarrow> (Inr (length h2), h2 @ [label (h2 ! c)])))"

section \<open>foi_correction\<close>

text \<open>A label image with two axes, or a volume with a leading axis.\<close>

datatype ndarray = A2 image | A3 "image list"

text \<open>The Python slice \<^verbatim>\<open>xs[start:stop]\<close>: a negative bound counts from the end.\<close>

definition py_slice :: "'a list \<Rightarrow> int \<Rightarrow> int \<Rightarrow> 'a list" where
  "py_slice xs start stop =
     (let n = int (length xs);
          s = (if start < 0 then max 0 (start + n) else min start n);
          e = (if stop < 0 then max 0 (stop + n) else min stop n)
      in take (nat (e - s)) (drop (nat s) xs))"

text \<open>\<^verbatim>\<open>a.shape[1]\<close> of an array given by its rows.\<close>

definition ncols :: "'a list list \<Rightarrow> nat" where
  "ncols a = (case a of [] \<Rightarrow> 0 | r # _ \<Rightarrow> length r)"

text \<open>
  Modelled from the spec: get_nucleus_ids, a helper of the repository's
  \<^verbatim>\<open>net_utils.utils\<close> that is not among the sources. The spec speaks of the region ids
  present in an image: the distinct positive values, ascending.
\<close>

definition get_nucleus_ids :: "nat list \<Rightarrow> nat list" where
  "get_nucleus_ids vals = filter (\<lambda>v. 0 < v) (sort (remdups vals))"

definition nd_values :: "ndarray \<Rightarrow> nat list" where
  "nd_values m = (case m of A2 a \<Rightarrow> concat a | A3 v \<Rightarrow> concat (map concat v))"

text \<open>\<^verbatim>\<open>mask[mask == id] = 0\<close>.\<close>

definition zero_label :: "ndarray \<Rightarrow> nat \<Rightarrow> ndarray" where
  "zero_label m v =
     (case m of
        A2 a \<Rightarrow> A2 (assign a (eq_mask a v) 0)
      | A3 vol \<Rightarrow> A3 (map (\<lambda>a. assign a (eq_mask a v) 0) vol))"

definition margin :: "string \<Rightarrow> nat" where
  "margin cell_type =
     (if cell_type \<in> set [''DIC-C2DH-HeLa'', ''Fluo-C2DL-Huh7'', ''Fluo-C2DL-MSC'',
           ''Fluo-C3DH-H157'', ''Fluo-N2DH-GOWT1'', ''Fluo-N3DH-CE'', ''Fluo-N3DH-CHO'',
           ''PhC-C2DH-U373'']
      then 50
      else if cell_type \<in> set [''BF-C2DL-HSC'', ''BF-C2DL-MuSC'', ''Fluo-C3DL-MDA231'',
           ''Fluo-N2DL-HeLa'', ''PhC-C2DL-PSC'']
      then 25
      else 0)"

definition crop2 :: "image \<Rightarrow> nat \<Rightarrow> image" where
  "crop2 a E =
     map (\<lambda>row. py_slice row (int E) (int (ncols a) - int E))
       (py_slice a (int E) (int (length a) - int E))"

definition field_of_interest :: "ndarray \<Rightarrow> nat \<Rightarrow> ndarray" where
  "field_of_interest m E =
     (case m of
        A2 a \<Rightarrow> A2 (crop2 a E)
      | A3 vol \<Rightarrow>
          A3 (map (\<lambda>a. map (\<lambda>row. py_slice row (int E) (int (ncols (hd vol)) - int E))
                        (py_slice a (int E) (int (length (hd vol)) - int E))) vol))"

text \<open>
  foi_correction writes into the array it is given: the argument is the address of the
  array in a store, and the address is returned.
\<close>

definition foi_correction :: "nat \<Rightarrow> string \<Rightarrow> ndarray list \<Rightarrow> nat \<times> ndarray list" where
  "foi_correction msk cell_type h =
     (let E = margin cell_type;
          foi = field_of_interest (h ! msk) E;
          ids_foi = get_nucleus_ids (nd_values foi);
          ids_prediction = get_nucleus_ids (nd_values (h ! msk));
          h = fold (\<lambda>id_prediction h.
                      if id_prediction \<notin> set ids_foi
                      then h[msk := zero_label (h ! msk) id_prediction] else h)
                ids_prediction h
      in (msk, h))"

text \<open>
  The words of the FOI claim. An array is rectangular when its rows have one length. The
  inset of margin \<open>E\<close> holds the positions at least \<open>E\<close> away from every border of the
  last two axes; \<open>in_foi E m v\<close> says that the value \<open>v\<close> occurs inside it.
\<close>

definition rect :: "'a list list \<Rightarrow> bool" where
  "rect a \<longleftrightarrow> (\<forall>r\<in>set a. length r = ncols a)"

definition nd_rect :: "ndarray \<Rightarrow> bool" where
  "nd_rect m =
     (case m of
        A2 a \<Rightarrow> rect a
      | A3 vol \<Rightarrow> (\<forall>a\<in>set vol. length a = length (hd vol)
                      \<and> (\<forall>r\<in>set a. length r = ncols (hd vol))))"

definition nd_map :: "(nat \<Rightarrow> nat) \<Rightarrow> ndarray \<Rightarrow> ndarray" where
  "nd_map f m = (case m of A2 a \<Rightarrow> A2 (map (map f) a) | A3 vol \<Rightarrow> A3 (map (map (map f)) vol))"

definition in_foi :: "nat \<Rightarrow> ndarray \<Rightarrow> nat \<Rightarrow> bool" where
  "in_foi E m v =
     (case m of
        A2 a \<Rightarrow> (\<exists>i\<in>{E..<length a - E}. \<exists>j\<in>{E..<ncols a - E}. a ! i ! j = v)
      | A3 vol \<Rightarrow> (\<exists>k\<in>{0..<length vol}. \<exists>i\<in>{E..<length (hd vol) - E}.
                   \<exists>j\<in>{E..<ncols (hd vol) - E}. vol ! k ! i ! j = v))"

text \<open>
  The invariant of a label image in the data model: every positive value denotes one
  connected region. Canonical labels are the integers from 1 to the number of regions.
\<close>

definition connected_labels :: "image \<Rightarrow> bool" where
  "connected_labels a \<longleftrightarrow>
     (\<forall>p\<in>set (positions a). \<forall>q\<in>set (positions a).
        px a p \<noteq> 0 \<and> px a p = px a q \<longrightarrow> conn8 a p q)"

definition consecutive_labels :: "image \<Rightarrow> bool" where
  "consecutive_labels a \<longleftrightarrow>
     map rlabel (regionprops a) = [1..<Suc (length (regionprops a))]"

text \<open>
  The words of the overlap query: the overlap ratio of the component with label \<open>l\<close> is
  the share of the query mask that lies in it (as a quotient of counts; for an empty query
  it is 0 here and NaN in the program, and fails the test in both), and a component
  qualifies when the ratio is positive and at most the maximum and the component has at
  least 4000 pixels.
\<close>

definition overlap_ratio :: "image \<Rightarrow> mask \<Rightarrow> nat \<Rightarrow> rat" where
  "overlap_ratio labels mk l =
     of_nat (mask_sum (mask_and (eq_mask labels l) mk)) / of_nat (mask_sum mk)"

definition qualifies :: "image \<Rightarrow> mask \<Rightarrow> rat \<Rightarrow> nat \<Rightarrow> bool" where
  "qualifies labels mk maximum_cells_overlap l \<longleftrightarrow>
     0 < overlap_ratio labels mk l \<and> overlap_ratio labels mk l \<le> maximum_cells_overlap
     \<and> 4000 \<le> mask_sum (eq_mask labels l)"

section \<open>Example inputs\<close>

text \<open>
  A prediction dictionary with a two-channel mask of two rows and two columns.
\<close>

definition example_dict :: "string \<rightharpoonup> prediction" where
  "example_dict = [''original_image'' \<mapsto> [[[0, 0], [0, 0]]],
                   ''mask'' \<mapsto> [[[0, 0], [0, 0]], [[9/10, 9/10], [0, 0]]]]"

text \<open>
  A label image of 60 rows and 60 columns: region 7 is the corner pixel, region 3 is the
  whole of row 30.
\<close>

definition foi_example :: image where
  "foi_example = [7 # replicate 59 0] @ replicate 29 (replicate 60 0) @ [replicate 60 3]
      @ replicate 29 (replicate 60 0)"

text \<open>An image of two horizontal bands: \<open>h1\<close> rows of \<open>x\<close> above \<open>h2\<close> rows of \<open>y\<close>.\<close>

definition bands :: "nat \<Rightarrow> nat \<Rightarrow> nat \<Rightarrow> 'a \<Rightarrow> 'a \<Rightarrow> 'a list list" where
  "bands h1 h2 w x y = replicate h1 (replicate w x) @ replicate h2 (replicate w y)"


text \<open>
  A base image of 33 rows and 32 columns, empty first row and one region, label 1, on the
  32 rows below; and a nuclei image whose region 1 is the first row and whose region 2
  covers the 32 rows below.
\<close>

definition nuclei_base :: image where
  "nuclei_base = bands 1 32 32 0 1"

definition nuclei_regions :: image where
  "nuclei_regions = bands 1 32 32 1 2"

section \<open>Properties of the labelling\<close>

lemma positions_snoc:
  "positions (a @ [r]) = positions a @ map (Pair (length a)) [0..<length r]"
proof -
  have h: "map (\<lambda>i. map (Pair i) [0..<length ((a @ [r]) ! i)]) [0..<length a] =
        map (\<lambda>i. map (Pair i) [0..<length (a ! i)]) [0..<length a]"
    by (rule map_cong) (simp_all add: nth_append)
  have "positions (a @ [r]) =
        concat (map (\<lambda>i. map (Pair i) [0..<length ((a @ [r]) ! i)]) [0..<length a])
        @ map (Pair (length a)) [0..<length r]"
    by (simp add: positions_def)
  also have "\<dots> = positions a @ map (Pair (length a)) [0..<length r]"
    unfolding positions_def by (simp only: h)
  finally show ?thesis .
qed

lemma set_positions: "set (positions a) = {(i, j). i < length a \<and> j < length (a ! i)}"
  by (auto simp: positions_def)

lemma in_positions: "(i, j) \<in> set (positions a) \<longleftrightarrow> i < length a \<and> j < length (a ! i)"
  by (simp add: set_positions)

lemma sorted_positions: "sorted_wrt (<) (positions a)"
proof (induction a rule: rev_induct)
  case Nil
  show ?case by (simp add: positions_def)
next
  case (snoc r a)
  have "sorted_wrt (<) (map (Pair (length a)) [0..<length r])"
    by (simp add: sorted_wrt_map)
  with snoc show ?case
    by (auto simp: positions_snoc sorted_wrt_append set_positions)
qed

lemma distinct_positions: "distinct (positions a)"
  using sorted_positions strict_sorted_iff by blast

lemma length_label: "length (label a) = length a"
  by (simp add: label_def)

lemma nth_label: "i < length a \<Longrightarrow> label a ! i = map (\<lambda>j. label_at a (i, j)) [0..<length (a ! i)]"
  by (simp add: label_def)

lemma positions_label: "positions (label a) = positions a"
proof -
  have h: "map (\<lambda>i. map (Pair i) [0..<length (label a ! i)]) [0..<length a] =
        map (\<lambda>i. map (Pair i) [0..<length (a ! i)]) [0..<length a]"
    by (rule map_cong) (simp_all add: nth_label)
  show ?thesis unfolding positions_def by (simp only: length_label h)
qed

lemma px_label: "p \<in> set (positions a) \<Longrightarrow> px (label a) p = label_at a p"
  by (cases p) (simp add: px_def in_positions nth_label)

lemma map_length_label: "map length (label a) = map length a"
  by (rule nth_equalityI) (simp_all add: length_label nth_label)


lemma neighbours_sym: "q \<in> set (neighbours a p) \<Longrightarrow> p \<in> set (neighbours a q)"
  by (auto simp: neighbours_def adjacent8_def split: if_splits)

lemma neighbours_px:
  "q \<in> set (neighbours a p) \<Longrightarrow> px a q = px a p \<and> q \<in> set (positions a) \<and> p \<in> set (positions a)"
  by (auto simp: neighbours_def split: if_splits)

lemma conn8_refl: "conn8 a p p"
  by (simp add: conn8_def)

lemma conn8_trans: "conn8 a p q \<Longrightarrow> conn8 a q r \<Longrightarrow> conn8 a p r"
  by (simp add: conn8_def)

lemma conn8_step: "q \<in> set (neighbours a p) \<Longrightarrow> conn8 a p q"
  by (auto simp: conn8_def)

lemma conn8_sym: "conn8 a p q \<Longrightarrow> conn8 a q p"
proof -
  have "sym {(x, y). y \<in> set (neighbours a x)}"
    by (auto simp: sym_def dest: neighbours_sym)
  then have "sym ({(x, y). y \<in> set (neighbours a x)}\<^sup>*)" by (rule sym_rtrancl)
  then show "conn8 a p q \<Longrightarrow> conn8 a q p"
    unfolding conn8_def by (rule symD)
qed

lemma conn8_px: "conn8 a p q \<Longrightarrow> px a q = px a p"
  unfolding conn8_def
  by (induction rule: rtrancl_induct) (auto dest: neighbours_px)

lemma conn8_positions:
  "conn8 a p q \<Longrightarrow> p \<in> set (positions a) \<Longrightarrow> q \<in> set (positions a)"
  unfolding conn8_def
  by (induction rule: rtrancl_induct) (auto dest: neighbours_px)

lemma root_props:
  assumes p: "p \<in> set (positions a)"
  shows root_in: "comp_root a p \<in> set (positions a)"
    and root_connected: "conn8 a p (comp_root a p)"
    and root_least: "\<And>q. q \<in> set (positions a) \<Longrightarrow> conn8 a p q \<Longrightarrow> comp_root a p \<le> q"
proof -
  let ?xs = "positions a"
  from p have "find (conn8 a p) ?xs \<noteq> None"
    using conn8_refl [of a p] by (metis find_None_iff)
  then obtain r where r: "find (conn8 a p) ?xs = Some r" by auto
  then obtain i where i: "i < length ?xs" "conn8 a p (?xs ! i)" "r = ?xs ! i"
    "\<forall>j<i. \<not> conn8 a p (?xs ! j)"
    by (auto simp: find_Some_iff)
  from r have rt: "comp_root a p = r" by (simp add: comp_root_def)
  show "comp_root a p \<in> set ?xs" using rt i by simp
  show "conn8 a p (comp_root a p)" using rt i by simp
  fix q assume q: "q \<in> set ?xs" and c: "conn8 a p q"
  from q obtain k where k: "k < length ?xs" "q = ?xs ! k" by (auto simp: in_set_conv_nth)
  with c i have "\<not> k < i" by auto
  then have "i = k \<or> i < k" by auto
  then show "comp_root a p \<le> q"
  proof
    assume "i = k" with rt i k show ?thesis by simp
  next
    assume "i < k"
    with k have "?xs ! i < ?xs ! k"
      using sorted_wrt_nth_less [OF sorted_positions, of i k a] by simp
    with rt i k show ?thesis by simp
  qed
qed

lemma root_eq:
  assumes "conn8 a p q" "p \<in> set (positions a)"
  shows "comp_root a p = comp_root a q"
proof -
  from assms have q: "q \<in> set (positions a)" by (rule conn8_positions)
  have "comp_root a p \<le> comp_root a q"
    using assms q by (intro root_least) (auto intro: root_in conn8_trans root_connected)
  moreover have "comp_root a q \<le> comp_root a p"
    using assms q
    by (intro root_least) (auto intro: root_in conn8_trans conn8_sym root_connected)
  ultimately show ?thesis by simp
qed

lemma root_root: "p \<in> set (positions a) \<Longrightarrow> comp_root a (comp_root a p) = comp_root a p"
  using root_eq [OF root_connected, of p a] by simp

lemma px_root: "p \<in> set (positions a) \<Longrightarrow> px a (comp_root a p) = px a p"
  by (simp add: conn8_px root_connected)

lemma is_root_root: "p \<in> set (positions a) \<Longrightarrow> px a p \<noteq> 0 \<Longrightarrow> is_root a (comp_root a p)"
  by (simp add: is_root_def root_root px_root)

lemma root_le: "p \<in> set (positions a) \<Longrightarrow> comp_root a p \<le> p"
  by (simp add: root_least conn8_refl)


lemma length_filter_positions:
  "length (filter P (positions a)) = card {r \<in> set (positions a). P r}"
proof -
  have "{x. P x} \<inter> set (positions a) = {r \<in> set (positions a). P r}" by auto
  then show ?thesis using distinct_length_filter [OF distinct_positions, of P a] by simp
qed

lemma rank_card: "rank a x = card {r \<in> set (positions a). is_root a r \<and> r \<le> x}"
  by (simp add: rank_def length_filter_positions)

lemma rank_less:
  assumes "is_root a r2" "r2 \<in> set (positions a)" "r1 < r2"
  shows "rank a r1 < rank a r2"
  unfolding rank_card
proof (rule psubset_card_mono)
  show "finite {r \<in> set (positions a). is_root a r \<and> r \<le> r2}" by simp
  have "r2 \<in> {r \<in> set (positions a). is_root a r \<and> r \<le> r2}" using assms by simp
  moreover have "r2 \<notin> {r \<in> set (positions a). is_root a r \<and> r \<le> r1}" using assms by auto
  moreover have "{r \<in> set (positions a). is_root a r \<and> r \<le> r1}
      \<subseteq> {r \<in> set (positions a). is_root a r \<and> r \<le> r2}" using assms by auto
  ultimately show "{r \<in> set (positions a). is_root a r \<and> r \<le> r1}
      \<subset> {r \<in> set (positions a). is_root a r \<and> r \<le> r2}" by blast
qed

lemma rank_inj:
  assumes "is_root a r1" "r1 \<in> set (positions a)" "is_root a r2" "r2 \<in> set (positions a)"
    and "rank a r1 = rank a r2"
  shows "r1 = r2"
proof (rule ccontr)
  assume "r1 \<noteq> r2"
  then have "r1 < r2 \<or> r2 < r1" by auto
  then show False
    using rank_less [of a r2 r1] rank_less [of a r1 r2] assms by auto
qed

lemma rank_pos:
  assumes "is_root a r1" "r1 \<in> set (positions a)"
  shows "0 < rank a r1"
proof -
  have "r1 \<in> {r \<in> set (positions a). is_root a r \<and> r \<le> r1}" using assms by simp
  then have "{r \<in> set (positions a). is_root a r \<and> r \<le> r1} \<noteq> {}" by blast
  then show ?thesis unfolding rank_card by (simp only: card_gt_0_iff) simp
qed

lemma rank_le: "rank a x \<le> ncomponents a"
proof -
  have "card {r \<in> set (positions a). is_root a r \<and> r \<le> x}
      \<le> card {r \<in> set (positions a). is_root a r}"
    by (rule card_mono) auto
  then show ?thesis by (simp add: rank_card ncomponents_def length_filter_positions)
qed

lemma label_at_eq_iff:
  assumes "p \<in> set (positions a)" "q \<in> set (positions a)" "px a p \<noteq> 0" "px a q \<noteq> 0"
  shows "label_at a p = label_at a q \<longleftrightarrow> conn8 a p q"
proof
  assume "conn8 a p q"
  then have "comp_root a p = comp_root a q" using assms by (simp add: root_eq)
  then show "label_at a p = label_at a q" using assms by (simp add: label_at_def)
next
  assume "label_at a p = label_at a q"
  then have "comp_root a p = comp_root a q"
    using assms by (intro rank_inj [of a]) (simp_all add: label_at_def is_root_root root_in)
  then show "conn8 a p q"
    using assms by (metis conn8_sym conn8_trans root_connected)
qed

lemma label_at_zero_iff:
  assumes "p \<in> set (positions a)"
  shows "label_at a p = 0 \<longleftrightarrow> px a p = 0"
  using assms rank_pos [of a "comp_root a p"]
  by (auto simp: label_at_def is_root_root root_in)

lemma label_at_le: "label_at a p \<le> ncomponents a"
  by (simp add: label_at_def rank_le)

lemma label_at_image:
  "label_at a ` {p \<in> set (positions a). px a p \<noteq> 0} = {1..ncomponents a}"
proof -
  let ?R = "{r \<in> set (positions a). is_root a r}"
  have img: "label_at a ` {p \<in> set (positions a). px a p \<noteq> 0} = rank a ` ?R"
  proof (intro equalityI subsetI)
    fix k assume "k \<in> label_at a ` {p \<in> set (positions a). px a p \<noteq> 0}"
    then obtain p where p: "p \<in> set (positions a)" "px a p \<noteq> 0" "k = label_at a p" by auto
    then have "comp_root a p \<in> ?R" "k = rank a (comp_root a p)"
      by (simp_all add: is_root_root root_in label_at_def)
    then show "k \<in> rank a ` ?R" by blast
  next
    fix k assume "k \<in> rank a ` ?R"
    then obtain r where r: "r \<in> set (positions a)" "is_root a r" "k = rank a r" by auto
    then have "px a r \<noteq> 0" "comp_root a r = r" by (simp_all add: is_root_def)
    with r have "k = label_at a r" by (simp add: label_at_def)
    with r \<open>px a r \<noteq> 0\<close> show "k \<in> label_at a ` {p \<in> set (positions a). px a p \<noteq> 0}" by blast
  qed
  have inj: "inj_on (rank a) ?R"
  proof (rule inj_onI)
    fix x y assume "x \<in> ?R" "y \<in> ?R" "rank a x = rank a y"
    then show "x = y" using rank_inj [of a x y] by simp
  qed
  have sub: "rank a ` ?R \<subseteq> {1..ncomponents a}"
  proof
    fix k assume "k \<in> rank a ` ?R"
    then obtain r where "r \<in> set (positions a)" "is_root a r" "k = rank a r" by auto
    then show "k \<in> {1..ncomponents a}"
      using rank_pos [of a r] rank_le [of a r] by simp
  qed
  have "card (rank a ` ?R) = card ?R" using inj by (rule card_image)
  also have "\<dots> = ncomponents a" by (simp add: ncomponents_def length_filter_positions)
  finally have "card (rank a ` ?R) = card {1..ncomponents a}" by simp
  with sub have "rank a ` ?R = {1..ncomponents a}" by (intro card_subset_eq) auto
  with img show ?thesis by simp
qed

lemma finite_reach: "finite ({(x, y). y \<in> set (neighbours a x)}\<^sup>* `` {p})"
proof -
  have "{(x, y). y \<in> set (neighbours a x)}\<^sup>* `` {p} \<subseteq> insert p (set (positions a))"
  proof
    fix q assume "q \<in> {(x, y). y \<in> set (neighbours a x)}\<^sup>* `` {p}"
    then have "(p, q) \<in> {(x, y). y \<in> set (neighbours a x)}\<^sup>*" by simp
    then show "q \<in> insert p (set (positions a))"
      by (induction rule: rtrancl_induct) (auto simp: neighbours_def split: if_splits)
  qed
  then show ?thesis by (rule finite_subset) simp
qed

text \<open>The components are computed by a worklist search.\<close>

lemma conn8_code [code]:
  "conn8 a p q =
     (case rtrancl_while (\<lambda>_. True) (neighbours a) p of
        Some (ws, Z) \<Rightarrow> q \<in> Z | None \<Rightarrow> False)"
proof -
  obtain ws Z where s: "rtrancl_while (\<lambda>_. True) (neighbours a) p = Some (ws, Z)"
    using rtrancl_while_finite_Some [OF finite_reach, of "\<lambda>_. True" a p] by auto
  from rtrancl_while_Some [OF s] have "Z = {(x, y). y \<in> set (neighbours a x)}\<^sup>* `` {p}"
    by (auto split: if_splits)
  with s show ?thesis by (simp add: conn8_def)
qed

section \<open>Evaluation on small arrays\<close>

lemmas array_defs = array_size_def np_unique_def count_label_def regionprops_def eq_mask_def
  gt0_mask_def mask_and_def logical_or_def mask_sum_def mask_any_def astype_int_def assign_def
  astype_uint16_def squeezed_ndim_def true_divide_def

lemma bind_err_Inr: "bind_err m f = Inr r \<longleftrightarrow> (\<exists>x. m = Inr x \<and> f x = Inr r)"
  by (cases m) (auto simp: bind_err_def)

lemma label_2x2_row: "label [[Suc 0, Suc 0], [0, 0]] = [[Suc 0, Suc 0], [0, 0]]"
  by code_simp

lemma label_2x2_zero: "label [[0, 0], [0, 0]] = [[0, 0], [0, 0]]"
  by code_simp

lemma simple_example:
  "0 \<le> t \<Longrightarrow> 2 < t \<Longrightarrow>
   simple_binary_mask_post_processing [[[0, 0], [0, 0]], [[9/10, 9/10], [0, 0]]] x args True t
     = Inr [[0, 0], [0, 0]]"
  by (simp add: simple_binary_mask_post_processing_def remove_smaller_areas_def remove_step_def
      bind_err_def array_defs label_2x2_row label_2x2_zero Let_def)

lemma add_nuclei_zero:
  "add_nuclei_by_overlapping (Unsigned 16) [[0, 0], [0, 0]] [[0, 0], [0, 0]] 1000 = Inr [[0, 0], [0, 0]]"
  by (simp add: add_nuclei_by_overlapping_def add_nuclei_loop_def get_maximum_label_def
      array_defs label_2x2_zero Let_def)

lemma refine_zero:
  "refine_objects_by_overlapping [[0, 0], [0, 0]] [[0, 0], [0, 0]] 1000 = [[0, 0], [0, 0]]"
  by (simp add: refine_objects_by_overlapping_def array_defs Let_def)

lemma add_objects_zero:
  "add_objects_by_overlapping (Signed 64) [[0, 0], [0, 0]] [[0, 0], [0, 0]] 1 1000
     = Inr [[0, 0], [0, 0]]"
  by (simp add: add_objects_by_overlapping_def add_objects_loop_def get_maximum_label_def
      array_defs label_2x2_zero Let_def)

lemma fusion_example:
  "fusion_post_processing example_dict example_dict example_dict () True
     = Inr ([[0, 0], [0, 0]], [[0, 0], [0, 0]])"
  by (simp add: fusion_post_processing_def example_dict_def getitem_def bind_err_def
      simple_example add_nuclei_zero refine_zero add_objects_zero astype_uint16_def)

section \<open>Slices and the field of interest\<close>

lemma py_slice_margin:
  "py_slice xs (int E) (int (length xs) - int E) = take (length xs - 2 * E) (drop E xs)"
proof (cases "E \<le> length xs")
  case True
  then have "nat (int (length xs) - int E - int E) = length xs - 2 * E" by linarith
  with True show ?thesis by (simp add: py_slice_def Let_def min_def)
next
  case False
  then show ?thesis by (simp add: py_slice_def Let_def min_def max_def)
qed

lemma set_take_drop:
  "set (take k (drop E xs)) = {xs ! i |i. E \<le> i \<and> i < E + k \<and> i < length xs}"
proof -
  let ?ys = "drop E xs"
  have "set (take k ?ys) = set (take (min k (length ?ys)) ?ys)" by (simp add: min_def)
  also have "\<dots> = nth ?ys ` {0..<min k (length ?ys)}" by (rule nth_image [symmetric]) simp
  also have "\<dots> = {xs ! i |i. E \<le> i \<and> i < E + k \<and> i < length xs}"
  proof (intro equalityI subsetI)
    fix v assume "v \<in> nth ?ys ` {0..<min k (length ?ys)}"
    then obtain i where "i < k" "i < length xs - E" "v = drop E xs ! i" by auto
    then have "v = xs ! (E + i)" "E \<le> E + i" "E + i < E + k" "E + i < length xs" by auto
    then show "v \<in> {xs ! i |i. E \<le> i \<and> i < E + k \<and> i < length xs}" by blast
  next
    fix v assume "v \<in> {xs ! i |i. E \<le> i \<and> i < E + k \<and> i < length xs}"
    then obtain i where i: "E \<le> i" "i < E + k" "i < length xs" "v = xs ! i" by auto
    then have "i - E < k" "i - E < length xs - E" "v = drop E xs ! (i - E)" by auto
    then have "i - E \<in> {0..<min k (length ?ys)}" "v = ?ys ! (i - E)" by auto
    then show "v \<in> nth ?ys ` {0..<min k (length ?ys)}" by blast
  qed
  finally show ?thesis .
qed

lemma set_margin:
  "set (py_slice xs (int E) (int (length xs) - int E)) = {xs ! i |i. i \<in> {E..<length xs - E}}"
  by (auto simp: py_slice_margin set_take_drop)

lemma nth_margin:
  assumes "i < length xs - 2 * E"
  shows "py_slice xs (int E) (int (length xs) - int E) ! i = xs ! (E + i)"
  using assms by (simp add: py_slice_margin)

lemma length_margin: "length (py_slice xs (int E) (int (length xs) - int E)) = length xs - 2 * E"
  by (simp add: py_slice_margin)

lemma rect_ncols: "rect a \<Longrightarrow> i < length a \<Longrightarrow> length (a ! i) = ncols a"
  by (simp add: rect_def)

lemma set_concat_crop2:
  assumes "rect a"
  shows "set (concat (crop2 a E)) = {v. in_foi E (A2 a) v}"
proof -
  have rows: "set (py_slice a (int E) (int (length a) - int E)) = {a ! i |i. i \<in> {E..<length a - E}}"
    by (rule set_margin)
  have row: "set (py_slice (a ! i) (int E) (int (ncols a) - int E))
             = {a ! i ! j |j. j \<in> {E..<ncols a - E}}" if "i < length a" for i
    using set_margin [of "a ! i" E] rect_ncols [OF assms that] by simp
  show ?thesis
  proof (intro equalityI subsetI)
    fix v assume "v \<in> set (concat (crop2 a E))"
    then obtain r where r: "r \<in> set (py_slice a (int E) (int (length a) - int E))"
      and v: "v \<in> set (py_slice r (int E) (int (ncols a) - int E))"
      by (auto simp: crop2_def)
    from r rows obtain i where i: "i \<in> {E..<length a - E}" "r = a ! i" by auto
    then have "i < length a" by auto
    from row [OF this] v i obtain j where "j \<in> {E..<ncols a - E}" "v = a ! i ! j" by auto
    with i have "\<exists>i\<in>{E..<length a - E}. \<exists>j\<in>{E..<ncols a - E}. a ! i ! j = v" by blast
    then show "v \<in> {v. in_foi E (A2 a) v}" by (simp add: in_foi_def)
  next
    fix v assume "v \<in> {v. in_foi E (A2 a) v}"
    then obtain i j where ij: "i \<in> {E..<length a - E}" "j \<in> {E..<ncols a - E}" "v = a ! i ! j"
      by (auto simp: in_foi_def)
    then have il: "i < length a" by auto
    from ij rows have "a ! i \<in> set (py_slice a (int E) (int (length a) - int E))" by blast
    moreover from ij row [OF il] have "v \<in> set (py_slice (a ! i) (int E) (int (ncols a) - int E))"
      by blast
    ultimately show "v \<in> set (concat (crop2 a E))" by (auto simp: crop2_def)
  qed
qed


lemma set_concat_crop3:
  assumes "nd_rect (A3 vol)"
  shows "set (nd_values (field_of_interest (A3 vol) E)) = {v. in_foi E (A3 vol) v}"
proof -
  let ?H = "length (hd vol)" and ?W = "ncols (hd vol)"
  have len: "length (vol ! k) = ?H" if "k < length vol" for k
    using assms that by (simp add: nd_rect_def)
  have wid: "length (vol ! k ! i) = ?W" if "k < length vol" "i < length (vol ! k)" for k i
  proof -
    from that have "vol ! k \<in> set vol" "vol ! k ! i \<in> set (vol ! k)" by simp_all
    with assms show ?thesis by (simp add: nd_rect_def)
  qed
  have rows: "set (py_slice (vol ! k) (int E) (int ?H - int E))
              = {vol ! k ! i |i. i \<in> {E..<?H - E}}" if "k < length vol" for k
    using set_margin [of "vol ! k" E] len [OF that] by simp
  have row: "set (py_slice (vol ! k ! i) (int E) (int ?W - int E))
             = {vol ! k ! i ! j |j. j \<in> {E..<?W - E}}" if "k < length vol" "i < ?H" for k i
    using set_margin [of "vol ! k ! i" E] wid [OF that(1), of i] len [OF that(1)] that by simp
  show ?thesis
  proof (intro equalityI subsetI)
    fix v assume "v \<in> set (nd_values (field_of_interest (A3 vol) E))"
    then obtain a r where a: "a \<in> set vol"
      and r: "r \<in> set (py_slice a (int E) (int ?H - int E))"
      and v: "v \<in> set (py_slice r (int E) (int ?W - int E))"
      by (auto simp: nd_values_def field_of_interest_def)
    from a obtain k where k: "k < length vol" "a = vol ! k" by (auto simp: in_set_conv_nth)
    from r rows [OF k(1)] k obtain i where i: "i \<in> {E..<?H - E}" "r = vol ! k ! i" by auto
    then have "i < ?H" by auto
    from row [OF k(1) this] v i obtain j where "j \<in> {E..<?W - E}" "v = vol ! k ! i ! j" by auto
    with i k have "\<exists>k\<in>{0..<length vol}. \<exists>i\<in>{E..<?H - E}. \<exists>j\<in>{E..<?W - E}. vol ! k ! i ! j = v"
      by (metis atLeastLessThan_iff le0)
    then show "v \<in> {v. in_foi E (A3 vol) v}" by (simp add: in_foi_def)
  next
    fix v assume "v \<in> {v. in_foi E (A3 vol) v}"
    then obtain k i j where kij: "k < length vol" "i \<in> {E..<?H - E}" "j \<in> {E..<?W - E}"
      "v = vol ! k ! i ! j"
      by (auto simp: in_foi_def)
    then have il: "i < ?H" by auto
    from kij rows [OF kij(1)] have "vol ! k ! i \<in> set (py_slice (vol ! k) (int E) (int ?H - int E))"
      by blast
    moreover from kij row [OF kij(1) il]
    have "v \<in> set (py_slice (vol ! k ! i) (int E) (int ?W - int E))"
      by blast
    moreover have "vol ! k \<in> set vol" using kij by simp
    ultimately show "v \<in> set (nd_values (field_of_interest (A3 vol) E))"
      by (auto simp: nd_values_def field_of_interest_def)
  qed
qed

lemma set_values_foi:
  "nd_rect m \<Longrightarrow> set (nd_values (field_of_interest m E)) = {v. in_foi E m v}"
proof (cases m)
  case (A2 a)
  assume "nd_rect m"
  with A2 show ?thesis
    using set_concat_crop2 [of a E] by (simp add: nd_rect_def nd_values_def field_of_interest_def)
next
  case (A3 vol)
  assume "nd_rect m"
  with A3 show ?thesis using set_concat_crop3 [of vol E] by simp
qed

lemma set_get_nucleus_ids: "set (get_nucleus_ids vs) = {v \<in> set vs. 0 < v}"
  by (auto simp: get_nucleus_ids_def)

lemma zero_label_nd_map: "zero_label m v = nd_map (\<lambda>x. if x = v then 0 else x) m"
proof -
  have "assign a (eq_mask a v) 0 = map (map (\<lambda>x. if x = v then 0 else x)) a" for a
    by (simp add: assign_def eq_mask_def zip_map2 zip_same_conv_map comp_def)
  then show ?thesis by (simp add: zero_label_def nd_map_def split: ndarray.splits)
qed

lemma nd_map_nd_map: "nd_map f (nd_map g m) = nd_map (f \<circ> g) m"
  by (simp add: nd_map_def split: ndarray.splits)

lemma nd_map_cong_values:
  assumes "\<And>v. v \<in> set (nd_values m) \<Longrightarrow> f v = g v"
  shows "nd_map f m = nd_map g m"
proof (cases m)
  case (A2 a)
  with assms have "\<And>r v. r \<in> set a \<Longrightarrow> v \<in> set r \<Longrightarrow> f v = g v"
    by (auto simp: nd_values_def)
  with A2 show ?thesis by (simp add: nd_map_def)
next
  case (A3 vol)
  with assms have "\<And>a r v. a \<in> set vol \<Longrightarrow> r \<in> set a \<Longrightarrow> v \<in> set r \<Longrightarrow> f v = g v"
    by (auto simp: nd_values_def)
  with A3 show ?thesis by (simp add: nd_map_def)
qed

lemma fold_zero_labels:
  assumes "a < length h"
  shows "fold (\<lambda>i h. if P i then h[a := zero_label (h ! a) i] else h) ids h
       = h[a := nd_map (\<lambda>x. if x \<in> set ids \<and> P x then 0 else x) (h ! a)]"
  using assms
proof (induction ids arbitrary: h)
  case Nil
  have "nd_map (\<lambda>x. x) (h ! a) = h ! a"
    by (simp add: nd_map_def split: ndarray.splits)
  then show ?case by simp
next
  case (Cons i ids)
  show ?case
  proof (cases "P i")
    case True
    have "(\<lambda>x. if x \<in> set ids \<and> P x then 0 else x) \<circ> (\<lambda>x. if x = i then 0 else x)
        = (\<lambda>x. if x \<in> set (i # ids) \<and> P x then 0 else x)"
      using True by (auto simp: fun_eq_iff)
    with True Cons show ?thesis
      by (simp add: zero_label_nd_map nd_map_nd_map)
  next
    case False
    then have "(\<lambda>x. if x \<in> set (i # ids) \<and> P x then 0 else x)
             = (\<lambda>x. if x \<in> set ids \<and> P x then 0 else x)"
      by (auto simp: fun_eq_iff)
    with False Cons show ?thesis by simp
  qed
qed


lemma margin_HSC: "margin ''BF-C2DL-HSC'' = 25"
  by (simp add: margin_def)

lemma foi_example_nth:
  "i < 60 \<Longrightarrow> j < 60 \<Longrightarrow>
   foi_example ! i ! j = (if i = 0 \<and> j = 0 then 7 else if i = 30 then 3 else 0)"
  by (auto simp: foi_example_def nth_append nth_Cons' )

lemma foi_example_in_foi:
  "in_foi 25 (A2 foi_example) v \<longleftrightarrow> v = 0 \<or> v = 3"
proof -
  have l: "length foi_example = 60" "ncols foi_example = 60"
    by (simp_all add: foi_example_def ncols_def)
  have "in_foi 25 (A2 foi_example) v
     \<longleftrightarrow> (\<exists>i\<in>{25..<35}. \<exists>j\<in>{25..<35}. foi_example ! i ! j = v)"
    by (simp add: in_foi_def l)
  also have "\<dots> \<longleftrightarrow> (\<exists>i\<in>{25..<35::nat}. \<exists>j\<in>{25..<35::nat}. (if i = 30 then 3 else 0) = v)"
    by (intro bex_cong refl) (simp add: foi_example_nth)
  also have "\<dots> \<longleftrightarrow> v = 0 \<or> v = 3"
  proof
    assume "\<exists>i\<in>{25..<35::nat}. \<exists>j\<in>{25..<35::nat}. (if i = 30 then 3 else 0) = v"
    then show "v = 0 \<or> v = 3" by (auto split: if_splits)
  next
    assume "v = 0 \<or> v = 3"
    then show "\<exists>i\<in>{25..<35::nat}. \<exists>j\<in>{25..<35::nat}. (if i = 30 then 3 else 0) = v"
    proof
      assume "v = 0"
      then have "(25::nat) \<in> {25..<35}" "(if (25::nat) = 30 then 3 else 0) = v" by simp_all
      then show ?thesis by blast
    next
      assume "v = 3"
      then have "(30::nat) \<in> {25..<35}" "(25::nat) \<in> {25..<35}" "(if (30::nat) = 30 then 3 else 0) = v" by simp_all
      then show ?thesis by blast
    qed
  qed
  finally show ?thesis .
qed

section \<open>The store\<close>

lemma fold_cell:
  "c < length h \<Longrightarrow> fold (\<lambda>x h. h[c := f x (h ! c)]) xs h = h[c := fold f xs (h ! c)]"
  by (induction xs arbitrary: h) simp_all

lemma in_cell_apply:
  "in_cell c step x (h, n) =
     (case step x (h ! c, n) of Inl e \<Rightarrow> Inl e | Inr (img, n') \<Rightarrow> Inr (h[c := img], n'))"
  by (simp add: in_cell_def split: sum.splits)

lemma fold_err_in_cell:
  "c < length h \<Longrightarrow>
   fold_err (in_cell c step) xs (h, n) =
     (case fold_err step xs (h ! c, n) of
        Inl e \<Rightarrow> Inl e
      | Inr (img, n') \<Rightarrow> Inr (h[c := img], n'))"
proof (induction xs arbitrary: h n)
  case Nil
  then show ?case by simp
next
  case (Cons x xs)
  show ?case
  proof (cases "step x (h ! c, n)")
    case (Inl e)
    then show ?thesis by (simp add: in_cell_apply)
  next
    case (Inr st)
    obtain img n' where st: "st = (img, n')" by (cases st)
    have "fold_err (in_cell c step) xs (h[c := img], n') =
       (case fold_err step xs (h[c := img] ! c, n') of
          Inl e \<Rightarrow> Inl e | Inr (img', n'') \<Rightarrow> Inr (h[c := img, c := img'], n''))"
      using Cons.prems by (subst Cons.IH) simp_all
    with Inr st Cons.prems show ?thesis
      by (simp add: in_cell_apply split: sum.splits)
  qed
qed

lemma remove_smaller_areas_st_pure:
  assumes "seeds < length h"
  shows "remove_smaller_areas_st seeds T h =
     (case remove_smaller_areas (h ! seeds) T of
        Inl e \<Rightarrow> (Inl e, h)
      | Inr out \<Rightarrow>
          (Inr (Suc (length h)),
           h @ [fold (remove_step T) (regionprops (h ! seeds)) (h ! seeds), out]))"
  using assms
  by (simp add: remove_smaller_areas_st_def remove_smaller_areas_def Let_def fold_cell nth_append)

lemma refine_objects_by_overlapping_st_pure:
  assumes "b < length h" "r < length h"
  shows "refine_objects_by_overlapping_st b r mx h =
     (length h, h @ [refine_objects_by_overlapping (h ! b) (h ! r) mx])"
  using assms
  by (simp add: refine_objects_by_overlapping_st_def refine_objects_by_overlapping_def Let_def
      fold_cell nth_append)

lemma add_objects_by_overlapping_st_pure:
  assumes "b < length h" "s < length h"
  shows "add_objects_by_overlapping_st dt b s co mn h =
     (case add_objects_loop dt (h ! b) (h ! s) co mn of
        Inl e \<Rightarrow> (Inl e, h @ [h ! b])
      | Inr (img, n) \<Rightarrow> (Inr (Suc (length h)), h @ [img, label img]))"
  using assms
  by (simp add: add_objects_by_overlapping_st_def add_objects_loop_def Let_def
      fold_err_in_cell nth_append split: sum.splits prod.splits)

lemma add_nuclei_by_overlapping_st_pure:
  assumes "b < length h" "s < length h"
  shows "add_nuclei_by_overlapping_st dt b s mn h =
     (case add_nuclei_loop dt (h ! b) (h ! s) mn of
        Inl e \<Rightarrow> (Inl e, h @ [h ! b])
      | Inr (img, n) \<Rightarrow> (Inr (Suc (length h)), h @ [img, label img]))"
  using assms
  by (simp add: add_nuclei_by_overlapping_st_def add_nuclei_loop_def Let_def
      fold_err_in_cell nth_append split: sum.splits prod.splits)

lemma fold_cell_frame:
  "a < length h \<Longrightarrow> a \<noteq> c \<Longrightarrow> fold (\<lambda>x h. h[c := f x h]) xs h ! a = h ! a"
  by (induction xs arbitrary: h) simp_all

lemma fold_cell_length: "length (fold (\<lambda>x h. h[c := f x h]) xs h) = length h"
  by (induction xs arbitrary: h) simp_all

lemma fold_err_in_cell_length:
  "fold_err (in_cell c step) xs (h, n) = Inr (h', n') \<Longrightarrow> length h' = length h"
proof (induction xs arbitrary: h n)
  case Nil
  then show ?case by simp
next
  case (Cons x xs)
  from Cons.prems(1) obtain img m where s: "step x (h ! c, n) = Inr (img, m)"
    and r: "fold_err (in_cell c step) xs (h[c := img], m) = Inr (h', n')"
    by (auto simp: in_cell_apply split: sum.splits prod.splits)
  from Cons.IH [OF r] show ?case by simp
qed

lemma fold_err_in_cell_frame:
  "fold_err (in_cell c step) xs (h, n) = Inr (h', n') \<Longrightarrow> a \<noteq> c \<Longrightarrow> h' ! a = h ! a"
proof (induction xs arbitrary: h n)
  case Nil
  then show ?case by simp
next
  case (Cons x xs)
  from Cons.prems(1) obtain img m where s: "step x (h ! c, n) = Inr (img, m)"
    and r: "fold_err (in_cell c step) xs (h[c := img], m) = Inr (h', n')"
    by (auto simp: in_cell_apply split: sum.splits prod.splits)
  from Cons.IH [OF r Cons.prems(2)] Cons.prems(2) show ?case by simp
qed

section \<open>Pixels, regions and relabelling\<close>

lemma px_append_left: "fst p < length a \<Longrightarrow> px (a @ b) p = px a p"
  by (simp add: px_def nth_append)

lemma concat_px: "concat a = map (px a) (positions a)"
proof (induction a rule: rev_induct)
  case Nil
  show ?case by (simp add: positions_def)
next
  case (snoc r a)
  have "map (px (a @ [r])) (positions a) = map (px a) (positions a)"
    by (rule map_cong) (auto simp: px_append_left set_positions)
  moreover have "map (px (a @ [r])) (map (Pair (length a)) [0..<length r]) = r"
    by (simp add: px_def comp_def map_nth)
  ultimately show ?case using snoc by (simp add: positions_snoc)
qed

lemma count_label_card: "count_label a v = card {p \<in> set (positions a). px a p = v}"
proof -
  have "count_label a v = length (filter (\<lambda>p. px a p = v) (positions a))"
    by (simp add: count_label_def concat_px filter_map comp_def)
  then show ?thesis by (simp add: length_filter_positions)
qed

lemma set_concat_px: "set (concat a) = px a ` set (positions a)"
  by (metis concat_px set_map)

lemma set_np_unique: "set (np_unique a) = px a ` set (positions a)"
  by (simp add: np_unique_def set_concat_px del: set_concat)

lemma sorted_np_unique: "sorted (np_unique a)" and distinct_np_unique: "distinct (np_unique a)"
  by (simp_all add: np_unique_def)

lemma regionprops_labels:
  "rlabel ` set (regionprops a) = {v \<in> px a ` set (positions a). v \<noteq> 0}"
proof -
  have "rlabel ` set (regionprops a) = set (filter (\<lambda>l. l \<noteq> 0) (np_unique a))"
    by (simp add: regionprops_def image_image)
  then show ?thesis by (auto simp: set_np_unique)
qed

lemma regionprops_area: "rp \<in> set (regionprops a) \<Longrightarrow> area rp = count_label a (rlabel rp)"
  by (auto simp: regionprops_def)

lemma regionprops_nonzero: "rp \<in> set (regionprops a) \<Longrightarrow> rlabel rp \<noteq> 0"
  by (auto simp: regionprops_def)

lemma positions_map_map: "positions (map (map f) a) = positions a"
proof -
  have h: "map (\<lambda>i. map (Pair i) [0..<length (map (map f) a ! i)]) [0..<length a] =
        map (\<lambda>i. map (Pair i) [0..<length (a ! i)]) [0..<length a]"
    by (rule map_cong) simp_all
  show ?thesis unfolding positions_def by (simp only: length_map h)
qed

lemma px_map_map: "p \<in> set (positions a) \<Longrightarrow> px (map (map f) a) p = f (px a p)"
  by (cases p) (simp add: px_def in_positions)

lemma zero_value: "assign a (eq_mask a l) 0 = map (map (\<lambda>x. if x = l then 0 else x)) a"
  by (simp add: assign_def eq_mask_def zip_map2 zip_same_conv_map comp_def)

lemma fold_remove_step:
  "fold (remove_step T) ps f =
     map (map (\<lambda>v. if v \<in> rlabel ` {rp \<in> set ps. int (area rp) \<le> T} then 0 else v)) f"
proof (induction ps arbitrary: f)
  case Nil
  show ?case by (simp add: map_idI)
next
  case (Cons rp ps)
  let ?g = "\<lambda>qs v. if v \<in> rlabel ` {r \<in> set qs. int (area r) \<le> T} then 0 else v"
  have "fold (remove_step T) (rp # ps) f = fold (remove_step T) ps (remove_step T rp f)"
    by simp
  also have "\<dots> = map (map (?g ps)) (remove_step T rp f)"
    by (rule Cons.IH)
  also have "\<dots> = map (map (?g (rp # ps))) f"
  proof (cases "int (area rp) \<le> T")
    case True
    have c: "?g ps \<circ> (\<lambda>x. if x = rlabel rp then 0 else x) = ?g (rp # ps)"
      using True by (auto simp: fun_eq_iff)
    have "remove_step T rp f = map (map (\<lambda>x. if x = rlabel rp then 0 else x)) f"
      using True by (simp add: remove_step_def zero_value)
    then have "map (map (?g ps)) (remove_step T rp f)
        = map (map (?g ps \<circ> (\<lambda>x. if x = rlabel rp then 0 else x))) f"
      by (simp add: comp_def)
    with c show ?thesis by simp
  next
    case False
    then have "{r \<in> set (rp # ps). int (area r) \<le> T} = {r \<in> set ps. int (area r) \<le> T}"
      by auto
    with False show ?thesis by (simp add: remove_step_def del: set_simps)
  qed
  finally show ?case .
qed


lemma conn8_transfer:
  assumes pos: "positions b = positions a"
    and keep: "\<And>x y. conn8 a p x \<Longrightarrow> y \<in> set (neighbours a x) \<Longrightarrow> px b y = px b x"
    and c: "conn8 a p q"
  shows "conn8 b p q"
proof -
  from c have "(p, q) \<in> {(x, y). y \<in> set (neighbours a x)}\<^sup>*" by (simp add: conn8_def)
  then show ?thesis
  proof (induction rule: rtrancl_induct)
    case base
    show ?case by (rule conn8_refl)
  next
    case (step y z)
    from step.hyps(1) have cy: "conn8 a p y" by (simp add: conn8_def)
    from step.hyps(2) have z: "z \<in> set (neighbours a y)" by simp
    then have zy: "z \<in> set (positions a)" "y \<in> set (positions a)"
      by (simp_all add: neighbours_px)
    from keep [OF cy z] have "px b z = px b y" .
    with z zy pos have "z \<in> set (neighbours b y)"
      by (simp add: neighbours_def)
    then have "conn8 b y z" by (rule conn8_step)
    with step.IH show ?case by (rule conn8_trans)
  qed
qed

lemma remove_smaller_areas_Inr:
  assumes "remove_smaller_areas img T = Inr out"
  shows "out = label (map (map (\<lambda>v. if v \<in> rlabel ` {rp \<in> set (regionprops img). int (area rp) \<le> T}
                                 then 0 else v)) img)"
  using assms
  by (simp add: remove_smaller_areas_def Let_def fold_remove_step split: if_splits)

lemma count_label_label:
  assumes p: "p \<in> set (positions f)" and nz: "px f p \<noteq> 0"
  shows "count_label (label f) (label_at f p) = card {q \<in> set (positions f). conn8 f p q}"
proof -
  have "{q \<in> set (positions f). px (label f) q = label_at f p}
      = {q \<in> set (positions f). conn8 f p q}"
  proof (intro equalityI subsetI)
    fix q assume "q \<in> {q \<in> set (positions f). px (label f) q = label_at f p}"
    then have q: "q \<in> set (positions f)" "label_at f q = label_at f p"
      using px_label [of q f] by simp_all
    with p nz have "px f q \<noteq> 0" by (metis label_at_zero_iff)
    with p nz q show "q \<in> {q \<in> set (positions f). conn8 f p q}"
      by (simp add: label_at_eq_iff [symmetric])
  next
    fix q assume "q \<in> {q \<in> set (positions f). conn8 f p q}"
    then have q: "q \<in> set (positions f)" "conn8 f p q" by simp_all
    then have "px f q \<noteq> 0" using nz by (simp add: conn8_px)
    with p nz q have "label_at f p = label_at f q" by (simp add: label_at_eq_iff)
    with q show "q \<in> {q \<in> set (positions f). px (label f) q = label_at f p}"
      by (simp add: px_label)
  qed
  then show ?thesis by (simp add: count_label_card positions_label)
qed

lemma connected_labels_example: "connected_labels [[1, 0, 2, 2]]"
  by code_simp

lemma label_example_row: "label [[0, 0, 2, 2]] = [[0, 0, 1, 1]]"
  by code_simp

section \<open>The relabelled image is canonical\<close>

lemma label_values:
  "{v \<in> px (label w) ` set (positions (label w)). v \<noteq> 0} = {1..ncomponents w}"
proof -
  have "{v \<in> px (label w) ` set (positions (label w)). v \<noteq> 0}
      = label_at w ` {p \<in> set (positions w). px w p \<noteq> 0}"
  proof (intro equalityI subsetI)
    fix v assume "v \<in> {v \<in> px (label w) ` set (positions (label w)). v \<noteq> 0}"
    then obtain p where p: "p \<in> set (positions w)" "v = label_at w p" "v \<noteq> 0"
      by (auto simp: positions_label px_label)
    then have "px w p \<noteq> 0" using label_at_zero_iff [of p w] by auto
    with p show "v \<in> label_at w ` {p \<in> set (positions w). px w p \<noteq> 0}" by blast
  next
    fix v assume "v \<in> label_at w ` {p \<in> set (positions w). px w p \<noteq> 0}"
    then obtain p where p: "p \<in> set (positions w)" "v = label_at w p" "px w p \<noteq> 0" by auto
    then have "v \<noteq> 0" using label_at_zero_iff [of p w] by auto
    moreover from p have "v \<in> px (label w) ` set (positions (label w))"
      using px_label [of p w] by (simp add: positions_label image_iff) metis
    ultimately show "v \<in> {v \<in> px (label w) ` set (positions (label w)). v \<noteq> 0}" by simp
  qed
  then show ?thesis by (simp only: label_at_image)
qed

lemma regionprops_label: "map rlabel (regionprops (label w)) = [1..<Suc (ncomponents w)]"
proof (rule sorted_distinct_set_unique)
  have m: "map rlabel (regionprops (label w)) = filter (\<lambda>l. l \<noteq> 0) (np_unique (label w))"
    by (simp add: regionprops_def comp_def)
  show "sorted (map rlabel (regionprops (label w)))"
    unfolding m by (rule sorted_wrt_filter) (rule sorted_np_unique)
  show "distinct (map rlabel (regionprops (label w)))"
    unfolding m by (simp add: distinct_np_unique)
  show "sorted [1..<Suc (ncomponents w)]" by (rule sorted_upt)
  show "distinct [1..<Suc (ncomponents w)]" by (rule distinct_upt)
  have "set (map rlabel (regionprops (label w))) = {1..ncomponents w}"
    using regionprops_labels [of "label w"] label_values [of w] by simp
  moreover have "set [1..<Suc (ncomponents w)] = {1..ncomponents w}"
    by (simp only: set_upt atLeastLessThanSuc_atLeastAtMost)
  ultimately show "set (map rlabel (regionprops (label w))) = set [1..<Suc (ncomponents w)]"
    by (simp only:)
qed

lemma consecutive_labels_label: "consecutive_labels (label w)"
proof -
  have "length (regionprops (label w)) = ncomponents w"
    using arg_cong [OF regionprops_label, of length w] by simp
  then show ?thesis by (simp add: consecutive_labels_def regionprops_label)
qed

lemma conn8_nonzero_eq:
  assumes "conn8 w x y" "x \<in> set (positions w)"
  shows "label_at w y = label_at w x"
proof (cases "px w x = 0")
  case True
  with assms have "px w y = 0" by (simp add: conn8_px)
  with True show ?thesis by (simp add: label_at_def)
next
  case False
  with assms have "px w y \<noteq> 0" "y \<in> set (positions w)"
    by (simp_all add: conn8_px conn8_positions)
  with False assms show ?thesis using label_at_eq_iff [of x w y] by simp
qed

lemma connected_labels_label: "connected_labels (label w)"
  unfolding connected_labels_def
proof (intro ballI impI)
  fix p q
  assume p: "p \<in> set (positions (label w))" and q: "q \<in> set (positions (label w))"
    and e: "px (label w) p \<noteq> 0 \<and> px (label w) p = px (label w) q"
  from p q have pw: "p \<in> set (positions w)" and qw: "q \<in> set (positions w)"
    by (simp_all add: positions_label)
  with e have l: "label_at w p \<noteq> 0" "label_at w p = label_at w q" by (simp_all add: px_label)
  with pw qw have "px w p \<noteq> 0" "px w q \<noteq> 0" by (metis label_at_zero_iff)+
  with l pw qw have c: "conn8 w p q" by (simp add: label_at_eq_iff)
  show "conn8 (label w) p q"
  proof (rule conn8_transfer [OF positions_label _ c])
    fix x y assume x: "conn8 w p x" and y: "y \<in> set (neighbours w x)"
    from x pw have xw: "x \<in> set (positions w)" by (rule conn8_positions)
    from y have yw: "y \<in> set (positions w)" by (simp add: neighbours_px)
    from y have "conn8 w x y" by (rule conn8_step)
    then have "label_at w y = label_at w x" using xw by (rule conn8_nonzero_eq)
    with xw yw show "px (label w) y = px (label w) x" by (simp add: px_label)
  qed
qed

lemma label_pair: "label [[1, 2]] = [[1, 2]]"
  by code_simp

lemma add_nuclei_pair: "add_nuclei_by_overlapping (Unsigned 16) [[1, 0]] [[0, 1]] 1000 = Inr [[1, 2]]"
proof -
  have "add_nuclei_loop (Unsigned 16) [[1, 0]] [[0, 1]] 1000 = Inr ([[1, 2]], 3)"
    by (simp add: add_nuclei_loop_def add_nuclei_step_def get_maximum_label_def
        cast_dtype_def array_defs Let_def)
  then show ?thesis by (simp add: add_nuclei_by_overlapping_def label_pair [unfolded One_nat_def])
qed

lemma add_objects_pair: "add_objects_by_overlapping (Signed 64) [[1, 0]] [[0, 1]] 1 1000 = Inr [[1, 2]]"
proof -
  have "add_objects_loop (Signed 64) [[1, 0]] [[0, 1]] 1 1000 = Inr ([[1, 2]], 3)"
    by (simp add: add_objects_loop_def add_objects_step_def get_maximum_label_def
        cast_dtype_def array_defs Let_def)
  then show ?thesis by (simp add: add_objects_by_overlapping_def label_pair [unfolded One_nat_def])
qed

section \<open>Labelling blocks of equal pixels\<close>

lemma in_neighbours:
  "p \<in> set (positions a) \<Longrightarrow> q \<in> set (positions a) \<Longrightarrow> adjacent8 p q \<Longrightarrow> px a q = px a p
   \<Longrightarrow> q \<in> set (neighbours a p)"
  by (simp add: neighbours_def)

lemma block_conn_origin:
  assumes blk: "\<And>i j. r0 \<le> i \<Longrightarrow> i < r1 \<Longrightarrow> j < w \<Longrightarrow>
                   (i, j) \<in> set (positions a) \<and> px a (i, j) = v"
    and i: "r0 \<le> i" "i < r1" and j: "j < w"
  shows "conn8 a (r0, 0) (i, j)"
proof -
  have col: "conn8 a (r0, 0) (k, 0)" if "r0 \<le> k" "k < r1" for k
    using that
  proof (induction k rule: dec_induct)
    case base
    show ?case by (rule conn8_refl)
  next
    case (step n)
    from step j have "n < r1" "r0 \<le> Suc n" "0 < w" by simp_all
    with step have "(n, 0) \<in> set (positions a) \<and> px a (n, 0) = v"
      "(Suc n, 0) \<in> set (positions a) \<and> px a (Suc n, 0) = v"
      using blk [of n 0] blk [of "Suc n" 0] by simp_all
    then have "(Suc n, 0) \<in> set (neighbours a (n, 0))"
      by (intro in_neighbours) (simp_all add: adjacent8_def)
    then have "conn8 a (n, 0) (Suc n, 0)" by (rule conn8_step)
    moreover have "conn8 a (r0, 0) (n, 0)" using step by simp
    ultimately show ?case by (rule conn8_trans [rotated])
  qed
  have row: "conn8 a (i, 0) (i, k)" if "k < w" for k
    using that
  proof (induction k)
    case 0
    show ?case by (rule conn8_refl)
  next
    case (Suc n)
    from Suc i have "(i, n) \<in> set (positions a) \<and> px a (i, n) = v"
      "(i, Suc n) \<in> set (positions a) \<and> px a (i, Suc n) = v"
      using blk [of i n] blk [of i "Suc n"] by simp_all
    then have "(i, Suc n) \<in> set (neighbours a (i, n))"
      by (intro in_neighbours) (simp_all add: adjacent8_def)
    then have "conn8 a (i, n) (i, Suc n)" by (rule conn8_step)
    moreover have "conn8 a (i, 0) (i, n)" using Suc by simp
    ultimately show ?case by (rule conn8_trans [rotated])
  qed
  from col [OF i] row [OF j] show ?thesis by (rule conn8_trans)
qed

lemma block_conn:
  assumes blk: "\<And>i j. r0 \<le> i \<Longrightarrow> i < r1 \<Longrightarrow> j < w \<Longrightarrow>
                   (i, j) \<in> set (positions a) \<and> px a (i, j) = v"
    and p: "r0 \<le> fst p" "fst p < r1" "snd p < w"
    and q: "r0 \<le> fst q" "fst q < r1" "snd q < w"
  shows "conn8 a p q"
proof -
  have "conn8 a (r0, 0) (fst p, snd p)"
    using blk p by (rule block_conn_origin)
  moreover have "conn8 a (r0, 0) (fst q, snd q)"
    using blk q by (rule block_conn_origin)
  ultimately show ?thesis
    using conn8_trans [OF conn8_sym, of a "(r0, 0)" p q] by simp
qed

lemma comp_root_first:
  assumes cl: "connected_labels a"
    and p: "p \<in> set (positions a)" "px a p \<noteq> 0"
    and f: "f \<in> set (positions a)" "px a f = px a p"
      "\<And>q. q \<in> set (positions a) \<Longrightarrow> px a q = px a p \<Longrightarrow> f \<le> q"
  shows "comp_root a p = f"
proof (rule antisym)
  from cl p f have "conn8 a p f" by (simp add: connected_labels_def)
  with f(1) p(1) show "comp_root a p \<le> f" by (simp add: root_least)
  have "px a (comp_root a p) = px a p" using p by (simp add: px_root)
  with p show "f \<le> comp_root a p" by (intro f(3)) (simp_all add: root_in)
qed

lemma label_at_first_occurrence:
  assumes cl: "connected_labels a"
    and V: "V = {v \<in> px a ` set (positions a). v \<noteq> 0}"
    and first: "\<And>v. v \<in> V \<Longrightarrow> f v \<in> set (positions a) \<and> px a (f v) = v
                  \<and> (\<forall>q\<in>set (positions a). px a q = v \<longrightarrow> f v \<le> q)"
    and p: "p \<in> set (positions a)" "px a p \<noteq> 0"
  shows "label_at a p = card {u \<in> V. f u \<le> f (px a p)}"
proof -
  have root: "comp_root a q = f (px a q)" if "q \<in> set (positions a)" "px a q \<noteq> 0" for q
  proof -
    from that have "px a q \<in> V" by (simp add: V)
    from first [OF this] that cl show ?thesis
      by (intro comp_root_first) simp_all
  qed
  have roots: "{r \<in> set (positions a). is_root a r \<and> r \<le> x} = f ` {u \<in> V. f u \<le> x}" for x
  proof (intro equalityI subsetI)
    fix r assume "r \<in> {r \<in> set (positions a). is_root a r \<and> r \<le> x}"
    then have r: "r \<in> set (positions a)" "px a r \<noteq> 0" "comp_root a r = r" "r \<le> x"
      by (simp_all add: is_root_def)
    then have "px a r \<in> V" "f (px a r) = r" using root [of r] by (simp_all add: V)
    with r show "r \<in> f ` {u \<in> V. f u \<le> x}" by force
  next
    fix r assume "r \<in> f ` {u \<in> V. f u \<le> x}"
    then obtain u where u: "u \<in> V" "f u \<le> x" "r = f u" by auto
    from first [OF u(1)] have fu: "f u \<in> set (positions a)" "px a (f u) = u" by simp_all
    moreover from u have "u \<noteq> 0" by (simp add: V)
    ultimately have "is_root a (f u)" using root [of "f u"] by (simp add: is_root_def)
    with u fu show "r \<in> {r \<in> set (positions a). is_root a r \<and> r \<le> x}" by simp
  qed
  have inj: "inj_on f {u \<in> V. f u \<le> x}" for x
  proof (rule inj_onI)
    fix u u' assume "u \<in> {u \<in> V. f u \<le> x}" "u' \<in> {u \<in> V. f u \<le> x}" "f u = f u'"
    then have "u \<in> V" "u' \<in> V" and e: "f u = f u'" by simp_all
    then have "px a (f u) = u" "px a (f u') = u'" using first by blast+
    with e show "u = u'" by metis
  qed
  have "label_at a p = rank a (f (px a p))" using p by (simp add: label_at_def root)
  also have "\<dots> = card (f ` {u \<in> V. f u \<le> f (px a p)})" by (simp add: rank_card roots)
  also have "\<dots> = card {u \<in> V. f u \<le> f (px a p)}" using inj by (rule card_image)
  finally show ?thesis .
qed

lemma label_eqI:
  assumes "length out = length a"
    and "\<And>i. i < length a \<Longrightarrow> length (out ! i) = length (a ! i)"
    and "\<And>i j. i < length a \<Longrightarrow> j < length (a ! i) \<Longrightarrow> out ! i ! j = label_at a (i, j)"
  shows "label a = out"
proof (rule nth_equalityI)
  show "length (label a) = length out" using assms(1) by (simp add: length_label)
  fix i assume "i < length (label a)"
  then have i: "i < length a" by (simp add: length_label)
  have l: "label a ! i = map (\<lambda>j. label_at a (i, j)) [0..<length (a ! i)]"
    using i by (rule nth_label)
  show "label a ! i = out ! i"
  proof (rule nth_equalityI)
    show "length (label a ! i) = length (out ! i)" using assms(2) [OF i] by (simp add: l)
    fix j assume "j < length (label a ! i)"
    then have j: "j < length (a ! i)" by (simp add: l)
    then show "label a ! i ! j = out ! i ! j" using assms(3) [OF i j] by (simp add: l)
  qed
qed


lemma label_zero: "label (replicate h (replicate w 0)) = replicate h (replicate w 0)"
  by (rule label_eqI) (simp_all add: label_at_def px_def)

lemma label_uniform:
  assumes x: "x \<noteq> 0"
  shows "label (replicate h (replicate w x)) = replicate h (replicate w 1)"
proof (rule label_eqI)
  let ?a = "replicate h (replicate w x)"
  show "length (replicate h (replicate w 1)) = length ?a" by simp
  show "length (replicate h (replicate w 1) ! i) = length (?a ! i)" if "i < length ?a" for i
    using that by simp
  fix i j assume ij: "i < length ?a" "j < length (?a ! i)"
  then have i: "i < h" and j: "j < w" by simp_all
  have pos: "(k, l) \<in> set (positions ?a) \<longleftrightarrow> k < h \<and> l < w" for k l
    by (auto simp: in_positions)
  have px: "px ?a (k, l) = x" if "k < h" "l < w" for k l
    using that by (simp add: px_def)
  have cl: "connected_labels ?a"
    unfolding connected_labels_def
  proof (intro ballI impI)
    fix p q assume "p \<in> set (positions ?a)" "q \<in> set (positions ?a)"
    then have "fst p < h" "snd p < w" "fst q < h" "snd q < w"
      using pos [of "fst p" "snd p"] pos [of "fst q" "snd q"] by simp_all
    then show "conn8 ?a p q"
      by (intro block_conn [where ?r0.0 = 0 and ?r1.0 = h and w = w and v = x])
        (simp_all add: pos px)
  qed
  have V: "{x} = {v \<in> px ?a ` set (positions ?a). v \<noteq> 0}"
  proof (intro equalityI subsetI)
    fix v assume "v \<in> {x}"
    moreover have "(i, j) \<in> set (positions ?a)" "px ?a (i, j) = x"
      using i j by (simp_all add: pos px)
    ultimately show "v \<in> {v \<in> px ?a ` set (positions ?a). v \<noteq> 0}"
      using x by (auto simp: image_iff) metis
  next
    fix v assume "v \<in> {v \<in> px ?a ` set (positions ?a). v \<noteq> 0}"
    then obtain p where "p \<in> set (positions ?a)" "v = px ?a p" by auto
    then show "v \<in> {x}" using pos [of "fst p" "snd p"] px [of "fst p" "snd p"] by simp
  qed
  have "label_at ?a (i, j) = card {u \<in> {x}. (\<lambda>_. (0::nat, 0::nat)) u \<le> (0, 0)}"
  proof (rule label_at_first_occurrence [OF cl V])
    show "(i, j) \<in> set (positions ?a)" using i j by (simp add: pos)
    show "px ?a (i, j) \<noteq> 0" using i j x by (simp add: px)
    fix v assume "v \<in> {x}"
    with i j show "(0, 0) \<in> set (positions ?a) \<and> px ?a (0, 0) = v
       \<and> (\<forall>q\<in>set (positions ?a). px ?a q = v \<longrightarrow> (0, 0) \<le> q)"
      by (auto simp: pos px)
  qed
  then show "replicate h (replicate w 1) ! i ! j = label_at ?a (i, j)"
    using i j by simp
qed

lemma label_two_bands:
  assumes x: "x \<noteq> 0" and y: "y \<noteq> 0" and xy: "x \<noteq> y" and h1: "0 < h1"
  shows "label (replicate h1 (replicate w x) @ replicate h2 (replicate w y))
       = replicate h1 (replicate w 1) @ replicate h2 (replicate w 2)"
proof (rule label_eqI)
  let ?a = "replicate h1 (replicate w x) @ replicate h2 (replicate w y)"
  let ?o = "replicate h1 (replicate w 1) @ replicate h2 (replicate w (2::nat))"
  let ?f = "\<lambda>v. if v = x then (0::nat, 0::nat) else (h1, 0)"
  have row: "?a ! k = replicate w (if k < h1 then x else y)" if "k < h1 + h2" for k
    using that by (simp add: nth_append)
  have orow: "?o ! k = replicate w (if k < h1 then 1 else 2)" if "k < h1 + h2" for k
    using that by (simp add: nth_append)
  show "length ?o = length ?a" by simp
  show "length (?o ! i) = length (?a ! i)" if "i < length ?a" for i
    using that by (simp add: nth_append)
  fix i j assume ij: "i < length ?a" "j < length (?a ! i)"
  then have i: "i < h1 + h2" by simp
  with ij have j: "j < w" by (simp add: row)
  have pos: "(k, l) \<in> set (positions ?a) \<longleftrightarrow> k < h1 + h2 \<and> l < w" for k l
    using row [of k] by (auto simp: in_positions)
  have px: "px ?a (k, l) = (if k < h1 then x else y)" if "k < h1 + h2" "l < w" for k l
    using that by (simp add: px_def row)
  have w0: "0 < w" using j by simp
  have cl: "connected_labels ?a"
    unfolding connected_labels_def
  proof (intro ballI impI)
    fix p q assume p: "p \<in> set (positions ?a)" and q: "q \<in> set (positions ?a)"
      and e: "px ?a p \<noteq> 0 \<and> px ?a p = px ?a q"
    from p q have b: "fst p < h1 + h2" "snd p < w" "fst q < h1 + h2" "snd q < w"
      using pos [of "fst p" "snd p"] pos [of "fst q" "snd q"] by simp_all
    with e xy have same: "fst p < h1 \<longleftrightarrow> fst q < h1"
      using px [of "fst p" "snd p"] px [of "fst q" "snd q"] by (auto split: if_splits)
    show "conn8 ?a p q"
    proof (cases "fst p < h1")
      case True
      with same b show ?thesis
        by (intro block_conn [where ?r0.0 = 0 and ?r1.0 = h1 and w = w and v = x])
          (simp_all add: pos px)
    next
      case False
      with same b show ?thesis
        by (intro block_conn [where ?r0.0 = h1 and ?r1.0 = "h1 + h2" and w = w and v = y])
          (simp_all add: pos px)
    qed
  qed
  have V: "(if h2 = 0 then {x} else {x, y}) = {v \<in> px ?a ` set (positions ?a). v \<noteq> 0}"
  proof (intro equalityI subsetI)
    fix v assume v: "v \<in> (if h2 = 0 then {x} else {x, y})"
    have "(0, 0) \<in> set (positions ?a)" "px ?a (0, 0) = x"
      using h1 w0 by (simp_all add: pos px)
    moreover have "(h1, 0) \<in> set (positions ?a)" "px ?a (h1, 0) = y" if "h2 \<noteq> 0"
      using that w0 by (simp_all add: pos px)
    ultimately show "v \<in> {v \<in> px ?a ` set (positions ?a). v \<noteq> 0}"
      using v x y by (auto simp: image_iff split: if_splits) metis+
  next
    fix v assume "v \<in> {v \<in> px ?a ` set (positions ?a). v \<noteq> 0}"
    then obtain p where p: "p \<in> set (positions ?a)" "v = px ?a p" by auto
    then have "fst p < h1 + h2" "snd p < w" using pos [of "fst p" "snd p"] by simp_all
    with p show "v \<in> (if h2 = 0 then {x} else {x, y})"
      using px [of "fst p" "snd p"] by (auto split: if_splits)
  qed
  have "label_at ?a (i, j) = card {u \<in> (if h2 = 0 then {x} else {x, y}). ?f u \<le> ?f (px ?a (i, j))}"
  proof (rule label_at_first_occurrence [OF cl V])
    show "(i, j) \<in> set (positions ?a)" using i j by (simp add: pos)
    show "px ?a (i, j) \<noteq> 0" using i j x y by (simp add: px)
    fix v assume v: "v \<in> (if h2 = 0 then {x} else {x, y})"
    show "?f v \<in> set (positions ?a) \<and> px ?a (?f v) = v
       \<and> (\<forall>q\<in>set (positions ?a). px ?a q = v \<longrightarrow> ?f v \<le> q)"
    proof (cases "v = x")
      case True
      with h1 w0 show ?thesis by (auto simp: pos px)
    next
      case False
      with v have vy: "v = y" "h2 \<noteq> 0" by (auto split: if_splits)
      have "(h1, 0) \<le> q" if "q \<in> set (positions ?a)" "px ?a q = y" for q
      proof -
        from that have "fst q < h1 + h2" "snd q < w" using pos [of "fst q" "snd q"] by simp_all
        with that xy have "h1 \<le> fst q" using px [of "fst q" "snd q"] by (auto split: if_splits)
        then show ?thesis by (cases q) (auto simp: less_eq_prod_def)
      qed
      with False vy w0 show ?thesis by (auto simp: pos px)
    qed
  qed
  also have "\<dots> = (if i < h1 then 1 else 2)"
  proof (cases "i < h1")
    case True
    with i j have "px ?a (i, j) = x" by (simp add: px)
    moreover have "{u \<in> (if h2 = 0 then {x} else {x, y}). ?f u \<le> (0, 0)} = {x}"
      using h1 xy by (auto simp: less_eq_prod_def split: if_splits)
    ultimately show ?thesis using True by simp
  next
    case False
    with i have h2: "h2 \<noteq> 0" by auto
    from False i j xy have "px ?a (i, j) = y" "?f y = (h1, 0)" by (simp_all add: px)
    moreover have "{u \<in> (if h2 = 0 then {x} else {x, y}). ?f u \<le> (h1, 0)} = {x, y}"
      using h2 xy by (auto simp: less_eq_prod_def split: if_splits)
    ultimately show ?thesis using False xy by simp
  qed
  finally show "?o ! i ! j = label_at ?a (i, j)"
    using i j by (simp add: nth_append)
qed

section \<open>The scan of the overlap queries\<close>

lemma overlap_scan_find:
  "overlap_scan L mk mx ls =
     (case find (\<lambda>l. l mod 65536 \<noteq> 0 \<and> qualifies L mk mx (l mod 65536)) ls of
        None \<Rightarrow> None
      | Some l \<Rightarrow> Some (l mod 65536, eq_mask L (l mod 65536), overlap_ratio L mk (l mod 65536)))"
proof (induction ls)
  case Nil
  show ?case by simp
next
  case (Cons l ls)
  show ?case
  proof (cases "mask_sum mk = 0")
    case True
    then have "\<not> qualifies L mk mx k" for k
      by (simp add: qualifies_def overlap_ratio_def)
    with True Cons show ?thesis
      by (simp add: true_divide_def Let_def)
  next
    case False
    with Cons show ?thesis
      by (simp add: true_divide_def Let_def qualifies_def overlap_ratio_def)
  qed
qed

lemma find_least:
  assumes "sorted xs" "distinct xs" "x \<in> set xs" "P x" "\<And>y. y \<in> set xs \<Longrightarrow> y < x \<Longrightarrow> \<not> P y"
  shows "find P xs = Some x"
proof -
  from assms(3) obtain i where i: "i < length xs" "x = xs ! i" by (auto simp: in_set_conv_nth)
  have "\<not> P (xs ! j)" if "j < i" for j
  proof -
    from that i assms(1,2) have "xs ! j < xs ! i"
      by (metis distinct_conv_nth less_imp_le_nat nat_neq_iff order.strict_trans
          order_le_imp_less_or_eq sorted_nth_mono)
    with i that show ?thesis by (intro assms(5)) simp_all
  qed
  with i assms(4) show ?thesis by (auto simp: find_Some_iff)
qed

lemma label_le_ncomponents: "v \<in> set (np_unique (label img)) \<Longrightarrow> v \<le> ncomponents img"
proof -
  assume "v \<in> set (np_unique (label img))"
  then obtain p where "p \<in> set (positions img)" "v = label_at img p"
    by (auto simp: set_np_unique positions_label px_label)
  then show ?thesis by (simp add: label_at_le)
qed

lemma label_in_unique:
  assumes "1 \<le> l" "l \<le> ncomponents img"
  shows "l \<in> set (np_unique (label img))"
proof -
  from assms have "l \<in> {v \<in> px (label img) ` set (positions (label img)). v \<noteq> 0}"
    by (simp only: label_values) simp
  then show ?thesis by (simp add: set_np_unique)
qed

lemma concat_replicate_replicate: "concat (replicate h (replicate w v)) = replicate (h * w) v"
  by (induction h) (simp_all add: replicate_add)

lemma mask_sum_uniform: "mask_sum (replicate h (replicate w b)) = (if b then h * w else 0)"
  by (simp add: mask_sum_def concat_replicate_replicate)

lemma remdups_replicate_pos: "0 < n \<Longrightarrow> remdups (replicate n v) = [v]"
proof (induction n)
  case 0
  then show ?case by simp
next
  case (Suc n)
  then show ?case by (cases n) simp_all
qed

lemma np_unique_uniform:
  "0 < h \<Longrightarrow> 0 < w \<Longrightarrow> np_unique (replicate h (replicate w v)) = [v]"
  by (simp add: np_unique_def concat_replicate_replicate remdups_replicate_pos)

lemma count_label_uniform:
  "count_label (replicate h (replicate w v)) x = (if x = v then h * w else 0)"
  by (auto simp: count_label_def concat_replicate_replicate)

lemma regionprops_uniform:
  "0 < h \<Longrightarrow> 0 < w \<Longrightarrow> v \<noteq> 0 \<Longrightarrow>
   regionprops (replicate h (replicate w v)) = [\<lparr>rlabel = v, area = h * w\<rparr>]"
  by (simp add: regionprops_def np_unique_uniform count_label_uniform)

lemma ncomponents_regionprops: "ncomponents w = length (regionprops (label w))"
  using arg_cong [OF regionprops_label, of length w] by simp

lemma ncomponents_uniform:
  "0 < h \<Longrightarrow> 0 < w \<Longrightarrow> v \<noteq> 0 \<Longrightarrow> ncomponents (replicate h (replicate w v)) = 1"
  by (simp add: ncomponents_regionprops label_uniform regionprops_uniform)

lemmas uniform_simps = mask_sum_uniform np_unique_uniform count_label_uniform
  regionprops_uniform label_uniform label_zero eq_mask_def gt0_mask_def mask_and_def
  logical_or_def assign_def astype_int_def

lemma get_overlapping_components_uniform:
  "4000 \<le> h * w \<Longrightarrow> v \<noteq> 0 \<Longrightarrow>
   get_overlapping_components (replicate h (replicate w v))
      (BoolArray (replicate h (replicate w True))) 1
     = Inr (Some (1, replicate h (replicate w True), 1))"
  by (cases "h = 0"; cases "w = 0")
    (simp_all add: get_overlapping_components_def Let_def uniform_simps true_divide_def)

lemma get_overlapping_components_small:
  "h * w < 4000 \<Longrightarrow> 0 < h \<Longrightarrow> 0 < w \<Longrightarrow> v \<noteq> 0 \<Longrightarrow>
   get_overlapping_components (replicate h (replicate w v))
      (BoolArray (replicate h (replicate w True))) 1
     = Inr None"
  by (simp add: get_overlapping_components_def Let_def uniform_simps true_divide_def)

section \<open>Shapes, assignments and the loop of add_objects_by_overlapping\<close>

lemma positions_shape: "map length a = map length b \<Longrightarrow> positions a = positions b"
proof -
  assume e: "map length a = map length b"
  then have l: "length a = length b" by (rule map_eq_imp_length_eq)
  have "length (a ! i) = length (b ! i)" if "i < length a" for i
    using arg_cong [OF e, of "\<lambda>xs. xs ! i"] that l by simp
  then have "map (\<lambda>i. map (Pair i) [0..<length (a ! i)]) [0..<length a] =
        map (\<lambda>i. map (Pair i) [0..<length (b ! i)]) [0..<length a]"
    by (intro map_cong) simp_all
  then show ?thesis unfolding positions_def l [symmetric] by (simp only:)
qed

lemma shape_map2:
  "map length m = map length a \<Longrightarrow> map length (map2 (map2 f) a m) = map length a"
proof (induction a arbitrary: m)
  case Nil
  then show ?case by simp
next
  case (Cons r a)
  then show ?case by (cases m) simp_all
qed

lemma shape_assign: "map length m = map length a \<Longrightarrow> map length (assign a m v) = map length a"
  unfolding assign_def by (rule shape_map2)

lemma shape_eq_mask: "map length (eq_mask a x) = map length a"
  by (simp add: eq_mask_def)

lemma px_eq_mask: "p \<in> set (positions a) \<Longrightarrow> px (eq_mask a x) p = (px a p = x)"
  by (cases p) (simp add: eq_mask_def px_def in_positions)

lemma px_map2:
  assumes "map length m = map length a" "p \<in> set (positions a)"
  shows "px (map2 (map2 f) a m) p = f (px a p) (px m p)"
proof -
  obtain i j where p: "p = (i, j)" by (cases p)
  from assms(1) have l: "length m = length a" by (rule map_eq_imp_length_eq)
  from assms(2) p have i: "i < length a" and j: "j < length (a ! i)" by (simp_all add: in_positions)
  have "length (m ! i) = length (a ! i)"
    using arg_cong [OF assms(1), of "\<lambda>xs. xs ! i"] i l by simp
  with i j l show ?thesis by (simp add: p px_def)
qed

lemma px_assign:
  "map length m = map length a \<Longrightarrow> p \<in> set (positions a) \<Longrightarrow>
   px (assign a m v) p = (if px m p then v else px a p)"
  unfolding assign_def by (subst px_map2) simp_all

lemma values_assign_row: "set (map2 (\<lambda>x b. if b then v else x) r rm) \<subseteq> insert v (set r)"
proof (induction r arbitrary: rm)
  case Nil
  show ?case by simp
next
  case (Cons y r)
  show ?case
  proof (cases rm)
    case Nil
    then show ?thesis by simp
  next
    case (Cons b rm')
    with Cons.IH [of rm'] show ?thesis by auto
  qed
qed

lemma values_assign: "set (concat (assign a m v)) \<subseteq> insert v (set (concat a))"
  unfolding assign_def
proof (induction a arbitrary: m)
  case Nil
  show ?case by simp
next
  case (Cons r a)
  show ?case
  proof (cases m)
    case Nil
    then show ?thesis by simp
  next
    case c: (Cons rm m')
    let ?g = "\<lambda>x b. if b then v else x"
    have e: "concat (map2 (map2 ?g) (r # a) (rm # m'))
           = map2 ?g r rm @ concat (map2 (map2 ?g) a m')" by simp
    have "set (map2 ?g r rm) \<union> set (concat (map2 (map2 ?g) a m'))
        \<subseteq> insert v (set r \<union> set (concat a))"
      using Cons.IH [of m'] values_assign_row [of v r rm] by blast
    then show ?thesis unfolding c e by (simp only: set_append concat.simps)
  qed
qed

lemma in_concat_map_upt: "x \<in> set (concat (map g [0..<n])) \<Longrightarrow> \<exists>i<n. x \<in> set (g i)"
  by auto

lemma fancy_assign_Inr:
  assumes "fancy_assign a idx v = Inr a'"
  shows "map length a' = map length a" and "set (concat a') \<subseteq> insert v (set (concat a))"
proof -
  define g where "g = (\<lambda>i. if i \<in> set (concat idx) then map (\<lambda>_. v) (a ! i) else a ! i)"
  from assms have a': "a' = map g [0..<length a]"
    by (simp add: fancy_assign_def g_def split: if_splits)
  have lg: "length (g i) = length (a ! i)" for i by (simp add: g_def)
  show "map length a' = map length a"
    unfolding a' by (rule nth_equalityI) (simp_all add: lg)
  show "set (concat a') \<subseteq> insert v (set (concat a))"
  proof
    fix x assume "x \<in> set (concat a')"
    then obtain i where i: "i < length a" "x \<in> set (g i)"
      unfolding a' by (blast dest: in_concat_map_upt)
    then have "x = v \<or> x \<in> set (a ! i)" by (auto simp: g_def split: if_splits)
    with i show "x \<in> insert v (set (concat a))" by auto
  qed
qed

lemma fold_max_le: "(\<And>x. x \<in> set xs \<Longrightarrow> x \<le> k) \<Longrightarrow> m \<le> k \<Longrightarrow> fold max xs m \<le> (k::nat)"
  by (induction xs arbitrary: m) simp_all

lemma dilation_le:
  assumes "\<And>v. v \<in> set (concat a) \<Longrightarrow> v \<le> k"
  shows "v \<in> set (concat (dilation a fp)) \<Longrightarrow> v \<le> k"
proof -
  assume "v \<in> set (concat (dilation a fp))"
  then obtain i j where v: "v = fold max (concat (map (\<lambda>i'. map (\<lambda>j'. px a (i', j'))
                       [j - length fp div 2 ..< min (length (a ! i')) (j + length fp div 2 + 1)])
                     [i - length fp div 2 ..< min (length a) (i + length fp div 2 + 1)])) 0"
    by (auto simp: dilation_def Let_def)
  show "v \<le> k"
    unfolding v
  proof (rule fold_max_le)
    fix x assume "x \<in> set (concat (map (\<lambda>i'. map (\<lambda>j'. px a (i', j'))
                       [j - length fp div 2 ..< min (length (a ! i')) (j + length fp div 2 + 1)])
                     [i - length fp div 2 ..< min (length a) (i + length fp div 2 + 1)]))"
    then obtain i' j' where "i' < length a" "j' < length (a ! i')" "x = px a (i', j')"
      by auto
    then have "a ! i' \<in> set a" "x \<in> set (a ! i')" by (simp_all add: px_def)
    then have "x \<in> set (concat a)" by auto
    then show "x \<le> k" by (rule assms)
  qed simp
qed

lemma astype_int_le: "v \<in> set (concat (astype_int m)) \<Longrightarrow> v \<le> 1"
  by (auto simp: astype_int_def)

lemma fancy_assign_dilated:
  assumes "2 \<le> length a"
  shows "\<exists>a'. fancy_assign a (dilation (astype_int m) fp) v = Inr a'"
proof -
  have "k < length a" if "k \<in> set (concat (dilation (astype_int m) fp))" for k
  proof -
    have "k \<le> 1" using _ that by (rule dilation_le) (rule astype_int_le)
    with assms show ?thesis by simp
  qed
  then show ?thesis by (simp add: fancy_assign_def list_all_iff)
qed


lemma overlap_query_found:
  assumes "1 \<le> l" "l \<le> ncomponents img" "l < 65536" "qualifies (label img) mk mx l"
  shows "\<exists>l' r. get_overlapping_components img (BoolArray mk) mx
              = Inr (Some (l', eq_mask (label img) l', r))
           \<and> 4000 \<le> mask_sum (eq_mask (label img) l')"
proof -
  let ?P = "\<lambda>l. l mod 65536 \<noteq> 0 \<and> qualifies (label img) mk mx (l mod 65536)"
  from assms have "l \<in> set (np_unique (label img))" "?P l"
    by (simp_all add: label_in_unique)
  then have "find ?P (np_unique (label img)) \<noteq> None"
    by (auto simp: find_None_iff)
  then obtain k where k: "find ?P (np_unique (label img)) = Some k" by auto
  then have "?P k" by (auto simp: find_Some_iff)
  then have "4000 \<le> mask_sum (eq_mask (label img) (k mod 65536))"
    by (simp add: qualifies_def)
  with k show ?thesis
    by (simp add: get_overlapping_components_def Let_def overlap_scan_find)
qed

lemma overlap_query_mask:
  assumes "get_overlapping_components img (BoolArray mk) mx = Inr (Some (l, m, r))"
  shows "4000 \<le> mask_sum m"
proof -
  let ?P = "\<lambda>l. l mod 65536 \<noteq> 0 \<and> qualifies (label img) mk mx (l mod 65536)"
  from assms obtain k where k: "find ?P (np_unique (label img)) = Some k"
    and m: "m = eq_mask (label img) (k mod 65536)"
    by (auto simp: get_overlapping_components_def Let_def overlap_scan_find split: option.splits)
  from k have "?P k" by (auto simp: find_Some_iff)
  with m show ?thesis by (simp add: qualifies_def)
qed

lemma overlap_query_none:
  assumes "\<And>l. \<not> qualifies (label img) mk mx l"
  shows "get_overlapping_components img (BoolArray mk) mx = Inr None"
proof -
  let ?P = "\<lambda>l. l mod 65536 \<noteq> 0 \<and> qualifies (label img) mk mx (l mod 65536)"
  have "find ?P (np_unique (label img)) = None"
    using assms by (simp add: find_None_iff)
  then show ?thesis
    by (simp add: get_overlapping_components_def Let_def overlap_scan_find)
qed

lemma cast_dtype_id: "v < 2 ^ dtype_bits dt \<Longrightarrow> cast_dtype dt v = v"
  by (simp add: cast_dtype_def)

text \<open>
  What the loop of add_objects_by_overlapping keeps while the counter stays in the range
  of the dtype: the shape of the working image, and every label of it below the next
  usable label, which moves on by one at most.
\<close>

lemma add_objects_step_inv:
  assumes s: "add_objects_step dt sc fg co mn rp (img, n) = Inr (img', n')"
    and shape: "map length sc = map length img"
    and below: "\<And>v. v \<in> set (concat img) \<Longrightarrow> v < n"
    and fit: "n + 1 < 2 ^ dtype_bits dt"
  shows "map length img' = map length img \<and> (\<forall>v\<in>set (concat img'). v < n') \<and> n \<le> n'
         \<and> n' \<le> n + 1"
proof -
  let ?cur = "eq_mask sc (rlabel rp)"
  have c: "cast_dtype dt n = n" "cast_dtype dt (Suc n) = Suc n"
    using fit by (simp_all add: cast_dtype_id)
  have sh: "map length ?cur = map length img" using shape by (simp add: shape_eq_mask)
  have stamp: "map length (assign a ?cur n) = map length img
       \<and> (\<forall>v\<in>set (concat (assign a ?cur n)). v < n + 1)"
    if "map length a = map length img" "set (concat a) \<subseteq> insert 0 (set (concat img))" for a
  proof -
    have "v < n + 1" if "v \<in> set (concat (assign a ?cur n))" for v
    proof -
      from that values_assign [of a ?cur n] have "v = n \<or> v \<in> set (concat a)" by auto
      with \<open>set (concat a) \<subseteq> insert 0 (set (concat img))\<close>
      have "v = n \<or> v = 0 \<or> v \<in> set (concat img)" by auto
      then show ?thesis using below [of v] by (auto simp del: set_concat)
    qed
    moreover have "map length (assign a ?cur n) = map length img"
      using that(1) sh by (simp add: shape_assign)
    ultimately show ?thesis by simp
  qed
  show ?thesis
  proof (cases "0 < mask_sum (mask_and ?cur fg)")
    case False
    with s have "img' = assign img ?cur n" "n' = n + 1"
      by (simp_all add: add_objects_step_def Let_def c)
    with stamp [of img] show ?thesis by auto
  next
    case True
    show ?thesis
    proof (cases "get_overlapping_components img (BoolArray ?cur) co")
      case (Inl e)
      with True s show ?thesis by (simp add: add_objects_step_def Let_def)
    next
      case (Inr res)
      show ?thesis
      proof (cases res)
        case None
        with Inr True s have "img' = img" "n' = n" by (simp_all add: add_objects_step_def Let_def)
        then show ?thesis using below by auto
      next
        case (Some t)
        obtain l m r where t: "t = (l, m, r)" by (cases t)
        show ?thesis
        proof (cases "mn \<le> mask_sum m")
          case False
          with Some t Inr True s have "img' = img" "n' = n"
            by (simp_all add: add_objects_step_def Let_def)
          then show ?thesis using below by auto
        next
          case big: True
          from big Some t Inr True s obtain a where
            a: "fancy_assign img (dilation (astype_int ?cur) (square 9)) 0 = Inr a"
            and r: "img' = assign a ?cur n" "n' = n + 1"
            by (auto simp: add_objects_step_def Let_def c split: sum.splits)
          from fancy_assign_Inr [OF a] stamp [of a] r show ?thesis by auto
        qed
      qed
    qed
  qed
qed

lemma add_objects_prefix_inv:
  assumes "fold_err (add_objects_step dt sc fg co mn) pre (img0, n0) = Inr (img, n)"
    and "map length sc = map length img0"
    and "\<And>v. v \<in> set (concat img0) \<Longrightarrow> v < n0"
    and "n0 + length pre < 2 ^ dtype_bits dt"
  shows "map length img = map length img0 \<and> (\<forall>v\<in>set (concat img). v < n) \<and> n0 \<le> n
         \<and> n \<le> n0 + length pre"
  using assms
proof (induction pre arbitrary: img0 n0)
  case Nil
  then show ?case by auto
next
  case (Cons rp pre)
  from Cons.prems(1) obtain img1 n1 where
    s: "add_objects_step dt sc fg co mn rp (img0, n0) = Inr (img1, n1)"
    and r: "fold_err (add_objects_step dt sc fg co mn) pre (img1, n1) = Inr (img, n)"
    by (auto split: sum.splits)
  from Cons.prems(4) have fit: "n0 + 1 < 2 ^ dtype_bits dt" by simp
  from add_objects_step_inv [OF s Cons.prems(2,3) fit]
  have i1: "map length img1 = map length img0" "\<And>v. v \<in> set (concat img1) \<Longrightarrow> v < n1"
    "n0 \<le> n1" "n1 \<le> n0 + 1"
    by auto
  from i1(4) Cons.prems(4) have fit1: "n1 + length pre < 2 ^ dtype_bits dt" by simp
  have sh1: "map length sc = map length img1" using i1(1) Cons.prems(2) by simp
  from Cons.IH [OF r sh1 i1(2) fit1]
  have "map length img = map length img1 \<and> (\<forall>v\<in>set (concat img). v < n) \<and> n1 \<le> n
        \<and> n \<le> n1 + length pre"
    by simp
  with i1 show ?case by simp
qed

lemma get_maximum_label_Inr:
  assumes "get_maximum_label a = Inr m" "v \<in> set (concat a)"
  shows "v \<le> m"
proof -
  from assms(1) have "m = Max (set (np_unique a))"
    by (simp add: get_maximum_label_def Let_def split: if_splits)
  moreover have "v \<in> set (np_unique a)" using assms(2) by (simp add: np_unique_def del: set_concat)
  ultimately show ?thesis by simp
qed

lemma get_maximum_label_uniform:
  "0 < h \<Longrightarrow> 0 < w \<Longrightarrow> get_maximum_label (replicate h (replicate w v)) = Inr v"
  by (simp add: get_maximum_label_def np_unique_uniform)

lemma qualifies_uniform:
  "4000 \<le> h * w \<Longrightarrow>
   qualifies (replicate h (replicate w 1)) (replicate h (replicate w True)) 1 1"
  by (cases "h = 0"; cases "w = 0") (simp_all add: qualifies_def overlap_ratio_def uniform_simps)

section \<open>Images of two bands\<close>

lemma bands_same: "bands h1 h2 w x x = replicate (h1 + h2) (replicate w x)"
  by (simp add: bands_def replicate_add)

lemma label_bands:
  "x \<noteq> 0 \<Longrightarrow> y \<noteq> 0 \<Longrightarrow> x \<noteq> y \<Longrightarrow> 0 < h1 \<Longrightarrow> label (bands h1 h2 w x y) = bands h1 h2 w 1 2"
  unfolding bands_def by (rule label_two_bands)

lemma label_bands_same: "x \<noteq> 0 \<Longrightarrow> label (bands h1 h2 w x x) = bands h1 h2 w 1 1"
  by (simp add: bands_same label_uniform)

lemma eq_mask_bands: "eq_mask (bands h1 h2 w x y) v = bands h1 h2 w (x = v) (y = v)"
  by (simp add: eq_mask_def bands_def)

lemma gt0_mask_bands: "gt0_mask (bands h1 h2 w x y) = bands h1 h2 w (0 < x) (0 < y)"
  by (simp add: gt0_mask_def bands_def)

lemma mask_and_bands:
  "mask_and (bands h1 h2 w a b) (bands h1 h2 w c d) = bands h1 h2 w (a \<and> c) (b \<and> d)"
  by (simp add: mask_and_def bands_def)

lemma logical_or_bands:
  "logical_or (bands h1 h2 w a b) (bands h1 h2 w c d) = bands h1 h2 w (a \<or> c) (b \<or> d)"
  by (simp add: logical_or_def bands_def)

lemma assign_bands:
  "assign (bands h1 h2 w x y) (bands h1 h2 w a b) v
     = bands h1 h2 w (if a then v else x) (if b then v else y)"
  by (simp add: assign_def bands_def)

lemma mask_sum_bands:
  "mask_sum (bands h1 h2 w a b) = (if a then h1 * w else 0) + (if b then h2 * w else 0)"
  by (simp add: mask_sum_def bands_def concat_replicate_replicate)

lemma count_label_bands:
  "count_label (bands h1 h2 w x y) v = (if v = x then h1 * w else 0) + (if v = y then h2 * w else 0)"
  by (auto simp: count_label_def bands_def concat_replicate_replicate)

lemma np_unique_set: "np_unique a = sorted_list_of_set (set (concat a))"
  by (simp add: np_unique_def sorted_list_of_set_sort_remdups del: set_concat)

lemma np_unique_bands:
  assumes "0 < h1" "0 < h2" "0 < w" "x < y"
  shows "np_unique (bands h1 h2 w x y) = [x, y]" and "np_unique (bands h1 h2 w y x) = [x, y]"
proof -
  have s: "set (concat (bands h1 h2 w x y)) = {x, y}" "set (concat (bands h1 h2 w y x)) = {x, y}"
    using assms by (auto simp: bands_def concat_replicate_replicate simp del: set_concat)
  have "sorted_list_of_set {x, y} = [x, y]"
    using assms(4) by (simp add: insort_is_Cons)
  then show "np_unique (bands h1 h2 w x y) = [x, y]" "np_unique (bands h1 h2 w y x) = [x, y]"
    by (simp_all only: np_unique_set s)
qed

lemmas bands_simps = eq_mask_bands gt0_mask_bands mask_and_bands logical_or_bands assign_bands
  mask_sum_bands count_label_bands


lemma get_maximum_label_nuclei_base: "get_maximum_label nuclei_base = Inr 1"
  by (simp add: get_maximum_label_def nuclei_base_def np_unique_bands)

lemma regionprops_nuclei_regions:
  "regionprops nuclei_regions = [\<lparr>rlabel = 1, area = 32\<rparr>, \<lparr>rlabel = 2, area = 1024\<rparr>]"
  by (simp add: regionprops_def nuclei_regions_def np_unique_bands bands_simps)

lemma nuclei_step_A:
  "add_nuclei_step (Unsigned 16) nuclei_regions (gt0_mask nuclei_base) 1000 \<lparr>rlabel = 1, area = 32\<rparr>
     (nuclei_base, 2) = Inr (bands 1 32 32 2 1, 3)"
  by (simp add: add_nuclei_step_def nuclei_regions_def nuclei_base_def Let_def bands_simps
      cast_dtype_def)

lemma nuclei_query_B:
  "get_nuclei_connected_components (bands 1 32 32 2 1) (BoolArray (bands 1 32 32 False True)) 1000
     = Inr (Some (2, bands 1 32 32 False True, 1))"
  by (simp add: get_nuclei_connected_components_def Let_def label_bands np_unique_bands
      bands_simps true_divide_def)

lemma nuclei_step_B:
  "add_nuclei_step (Unsigned 16) nuclei_regions (gt0_mask nuclei_base) 1000 \<lparr>rlabel = 2, area = 1024\<rparr>
     (bands 1 32 32 2 1, 3) = Inr (bands 1 32 32 2 2, 3)"
  by (simp add: add_nuclei_step_def nuclei_regions_def nuclei_base_def Let_def bands_simps
      nuclei_query_B cast_dtype_def del: One_nat_def)

lemma nuclei_loop:
  "add_nuclei_loop (Unsigned 16) nuclei_base nuclei_regions 1000 = Inr (bands 1 32 32 2 2, 3)"
  by (simp add: add_nuclei_loop_def get_maximum_label_nuclei_base regionprops_nuclei_regions
      nuclei_step_A nuclei_step_B cast_dtype_def del: One_nat_def)

section \<open>Indexing with the dilated mask\<close>

text \<open>
  The dilated mask of add_objects_by_overlapping is an array of integers, so the
  assignment through it addresses rows: in an image of at least two rows it zeroes rows 0
  and 1, and pixels of the dilated region below them keep the host's label; in an image
  of one row it raises IndexError.
\<close>

lemma fold_max_start: "m \<le> fold max xs (m::nat)"
proof (induction xs arbitrary: m)
  case Nil
  show ?case by simp
next
  case (Cons y ys)
  have "m \<le> max y m" by simp
  also have "max y m \<le> fold max ys (max y m)" by (rule Cons.IH)
  finally show ?case by simp
qed

lemma fold_max_ge: "x \<in> set xs \<Longrightarrow> x \<le> fold max xs (m::nat)"
proof (induction xs arbitrary: m)
  case Nil
  then show ?case by simp
next
  case (Cons y ys)
  show ?case
  proof (cases "x = y")
    case True
    have "x \<le> max y m" using True by simp
    also have "max y m \<le> fold max ys (max y m)" by (rule fold_max_start)
    finally show ?thesis by simp
  next
    case False
    with Cons.prems have "x \<in> set ys" by simp
    then have "x \<le> fold max ys (max y m)" by (rule Cons.IH)
    then show ?thesis by simp
  qed
qed

lemma px_dilation:
  "i < length a \<Longrightarrow> j < length (a ! i) \<Longrightarrow>
   px (dilation a fp) (i, j) =
     fold max (concat (map (\<lambda>i'. map (\<lambda>j'. px a (i', j'))
                       [j - length fp div 2 ..< min (length (a ! i')) (j + length fp div 2 + 1)])
                     [i - length fp div 2 ..< min (length a) (i + length fp div 2 + 1)])) 0"
  by (simp add: dilation_def px_def Let_def)

lemma positions_dilation: "positions (dilation a fp) = positions a"
proof -
  have "map length (dilation a fp) = map length a"
    by (rule nth_equalityI) (simp_all add: dilation_def Let_def)
  then show ?thesis by (rule positions_shape)
qed

lemma in_mapI: "j \<in> set xs \<Longrightarrow> f j \<in> set (map f xs)"
  by simp

lemma in_concat_mapI: "i \<in> set xs \<Longrightarrow> x \<in> set (f i) \<Longrightarrow> x \<in> set (concat (map f xs))"
  by auto

lemma dilation_ge:
  assumes "i < length a" "j < length (a ! i)"
    and "i - length fp div 2 \<le> i'" "i' < min (length a) (i + length fp div 2 + 1)"
    and "j - length fp div 2 \<le> j'" "j' < min (length (a ! i')) (j + length fp div 2 + 1)"
  shows "px a (i', j') \<le> px (dilation a fp) (i, j)"
proof -
  let ?r = "length fp div 2"
  have ri: "i' \<in> set [i - ?r ..< min (length a) (i + ?r + 1)]" using assms by simp
  have "j' \<in> set [j - ?r ..< min (length (a ! i')) (j + ?r + 1)]" using assms by simp
  then have "px a (i', j') \<in> set (map (\<lambda>j'. px a (i', j'))
                       [j - ?r ..< min (length (a ! i')) (j + ?r + 1)])"
    by (rule in_mapI)
  with ri have "px a (i', j') \<in> set (concat (map (\<lambda>i'. map (\<lambda>j'. px a (i', j'))
                       [j - ?r ..< min (length (a ! i')) (j + ?r + 1)])
                     [i - ?r ..< min (length a) (i + ?r + 1)]))"
    by (rule in_concat_mapI)
  then have "px a (i', j') \<le> fold max (concat (map (\<lambda>i'. map (\<lambda>j'. px a (i', j'))
                       [j - ?r ..< min (length (a ! i')) (j + ?r + 1)])
                     [i - ?r ..< min (length a) (i + ?r + 1)])) 0"
    by (rule fold_max_ge)
  then show ?thesis using assms(1,2) by (simp only: px_dilation)
qed

lemma dilation_zero:
  assumes "i < length a" "j < length (a ! i)"
    and "\<And>i' j'. i - length fp div 2 \<le> i' \<Longrightarrow> i' < min (length a) (i + length fp div 2 + 1)
          \<Longrightarrow> j - length fp div 2 \<le> j' \<Longrightarrow> j' < min (length (a ! i')) (j + length fp div 2 + 1)
          \<Longrightarrow> px a (i', j') = 0"
  shows "px (dilation a fp) (i, j) = 0"
proof -
  let ?r = "length fp div 2"
  have "fold max (concat (map (\<lambda>i'. map (\<lambda>j'. px a (i', j'))
                       [j - ?r ..< min (length (a ! i')) (j + ?r + 1)])
                     [i - ?r ..< min (length a) (i + ?r + 1)])) 0 \<le> 0"
  proof (rule fold_max_le)
    fix x assume "x \<in> set (concat (map (\<lambda>i'. map (\<lambda>j'. px a (i', j'))
                       [j - ?r ..< min (length (a ! i')) (j + ?r + 1)])
                     [i - ?r ..< min (length a) (i + ?r + 1)]))"
    then obtain i' j' where "i - ?r \<le> i'" "i' < min (length a) (i + ?r + 1)"
      "j - ?r \<le> j'" "j' < min (length (a ! i')) (j + ?r + 1)" "x = px a (i', j')"
      by auto
    then show "x \<le> 0" using assms(3) [of i' j'] by simp
  qed simp
  then have "fold max (concat (map (\<lambda>i'. map (\<lambda>j'. px a (i', j'))
                       [j - ?r ..< min (length (a ! i')) (j + ?r + 1)])
                     [i - ?r ..< min (length a) (i + ?r + 1)])) 0 = 0"
    by (rule le_zero_eq [THEN iffD1])
  then show ?thesis using assms(1,2) by (simp only: px_dilation)
qed

lemma px_in_concat: "p \<in> set (positions a) \<Longrightarrow> px a p \<in> set (concat a)"
  by (subst concat_px) simp

lemma px_bands:
  "i < h1 + h2 \<Longrightarrow> j < w \<Longrightarrow> px (bands h1 h2 w x y) (i, j) = (if i < h1 then x else y)"
  by (simp add: bands_def px_def nth_append)

lemma in_positions_bands: "(i, j) \<in> set (positions (bands h1 h2 w x y)) \<longleftrightarrow> i < h1 + h2 \<and> j < w"
  by (auto simp: in_positions bands_def nth_append)

lemma length_bands: "length (bands h1 h2 w x y) = h1 + h2"
  and nth_bands: "i < h1 + h2 \<Longrightarrow> bands h1 h2 w x y ! i = replicate w (if i < h1 then x else y)"
  by (simp_all add: bands_def nth_append)

lemma astype_int_bands:
  "astype_int (bands h1 h2 w a b) = bands h1 h2 w (if a then 1 else 0) (if b then 1 else 0)"
  by (simp add: astype_int_def bands_def)

lemma fancy_assign_rows:
  assumes "set (concat idx) = {0, 1}"
  shows "fancy_assign (bands 2 h2 w x y) idx v = Inr (bands 2 h2 w v y)"
proof -
  let ?f = "\<lambda>i. if i \<in> {0, 1::nat} then map (\<lambda>_. v) (bands 2 h2 w x y ! i)
                 else bands 2 h2 w x y ! i"
  have "map ?f [0..<2 + h2] = bands 2 h2 w v y"
  proof (rule nth_equalityI)
    show "length (map ?f [0..<2 + h2]) = length (bands 2 h2 w v y)"
      by (simp only: length_map length_upt length_bands diff_zero)
  next
    fix i assume "i < length (map ?f [0..<2 + h2])"
    then have i: "i < 2 + h2" by (simp only: length_map length_upt diff_zero)
    then have "map ?f [0..<2 + h2] ! i = ?f i"
      by (simp only: nth_map_upt diff_zero add_0)
    also have "\<dots> = bands 2 h2 w v y ! i"
      using i by (auto simp only: nth_bands map_replicate_const length_replicate split: if_splits)
    finally show "map ?f [0..<2 + h2] ! i = bands 2 h2 w v y ! i" .
  qed
  moreover have "list_all (\<lambda>k. k < 2 + h2) (concat idx)"
    unfolding list_all_iff assms by simp
  ultimately show ?thesis
    unfolding fancy_assign_def length_bands assms by (simp only: if_True)
qed

lemma dilation_band_values:
  "set (concat (dilation (bands 2 62 64 1 0) (square 9))) = {0, 1}"
proof -
  let ?a = "bands 2 62 64 (1::nat) 0"
  let ?d = "dilation ?a (square 9)"
  have r: "length (square 9) div 2 = 4" by (simp add: square_def)
  have le: "v \<le> 1" if "v \<in> set (concat ?d)" for v
    using _ that
  proof (rule dilation_le)
    fix u assume "u \<in> set (concat ?a)"
    then show "u \<le> 1" by (auto simp: bands_def)
  qed
  have p0: "(0, 0) \<in> set (positions ?d)" and p1: "(63, 0) \<in> set (positions ?d)"
    by (simp_all add: positions_dilation in_positions_bands)
  have "px ?a (0, 0) \<le> px ?d (0, 0)"
    by (rule dilation_ge) (simp_all add: length_bands nth_bands r)
  then have "1 \<le> px ?d (0, 0)" by (simp add: px_bands)
  moreover have "px ?d (0, 0) \<le> 1" using p0 by (intro le px_in_concat)
  ultimately have "px ?d (0, 0) = 1" by simp
  then have one: "1 \<in> set (concat ?d)" using px_in_concat [OF p0] by simp
  have "px ?d (63, 0) = 0"
  proof (rule dilation_zero)
    fix i' j'
    assume "63 - length (square 9) div 2 \<le> i'"
      "i' < min (length ?a) (63 + length (square 9) div 2 + 1)"
      "j' < min (length (?a ! i')) (0 + length (square 9) div 2 + 1)"
    then have "59 \<le> i'" "i' < 64" "j' < 5" by (simp_all add: r length_bands nth_bands)
    then show "px ?a (i', j') = 0" by (simp add: px_bands)
  qed (simp_all add: length_bands nth_bands)
  then have zero: "0 \<in> set (concat ?d)" using px_in_concat [OF p1] by simp
  show ?thesis
  proof (rule set_eqI)
    fix v show "v \<in> set (concat ?d) \<longleftrightarrow> v \<in> {0, 1}"
    proof
      assume "v \<in> set (concat ?d)"
      then have "v \<le> 1" by (rule le)
      then show "v \<in> {0, 1}" by auto
    next
      assume "v \<in> {0, 1}"
      then have "v = 0 \<or> v = 1" by simp
      then show "v \<in> set (concat ?d)" using zero one by metis
    qed
  qed
qed

lemma dilation_band_footprint:
  "px (dilation (bands 2 62 64 1 0) (square 9)) (3, 0) = 1"
proof -
  let ?a = "bands 2 62 64 (1::nat) 0"
  let ?d = "dilation ?a (square 9)"
  have r: "length (square 9) div 2 = 4" by (simp add: square_def)
  have p: "(3, 0) \<in> set (positions ?d)" by (simp add: positions_dilation in_positions_bands)
  have "px ?a (1, 0) \<le> px ?d (3, 0)"
    by (rule dilation_ge) (simp_all add: length_bands nth_bands r)
  then have "1 \<le> px ?d (3, 0)" by (simp add: px_bands)
  moreover have "px ?d (3, 0) \<in> {0, 1}"
    using px_in_concat [OF p] by (simp only: dilation_band_values)
  ultimately show ?thesis by auto
qed

lemma band_query:
  "get_overlapping_components (bands 2 62 64 1 1) (BoolArray (bands 2 62 64 True False)) 1
     = Inr (Some (1, bands 2 62 64 True True, 1))"
proof -
  have l: "label (bands 2 62 64 1 1) = bands 2 62 64 1 1"
    by (simp add: label_bands_same)
  have "np_unique (replicate (2 + 62) (replicate 64 (1::nat))) = [1]"
    by (simp add: np_unique_uniform)
  then have u: "np_unique (bands 2 62 64 1 1) = [1]"
    by (simp only: bands_same)
  show ?thesis
    by (simp add: get_overlapping_components_def Let_def l u bands_simps true_divide_def
        del: One_nat_def)
qed

lemma add_objects_step_rows:
  "add_objects_step (Signed 64) (bands 2 62 64 1 0) (bands 2 62 64 True True) 1 1000
       \<lparr>rlabel = 1, area = 128\<rparr> (bands 2 62 64 1 1, 2)
     = Inr (bands 2 62 64 2 1, 3)"
  by (simp add: add_objects_step_def Let_def bands_simps band_query astype_int_bands
      fancy_assign_rows [OF dilation_band_values] cast_dtype_def del: One_nat_def)

lemma fancy_assign_IndexError:
  "k \<in> set (concat idx) \<Longrightarrow> length a \<le> k \<Longrightarrow> fancy_assign a idx v = Inl IndexError"
proof -
  assume k: "k \<in> set (concat idx)" "length a \<le> k"
  then have "\<not> k < length a" by simp
  with k(1) have "\<not> (\<forall>k\<in>set (concat idx). k < length a)" by blast
  then show ?thesis by (simp only: fancy_assign_def list_all_iff if_False)
qed

lemma add_objects_step_one_row:
  assumes "4000 \<le> w" "mn \<le> w"
  shows "add_objects_step dt [replicate w 1] [replicate w True] 1 mn \<lparr>rlabel = 1, area = w\<rparr>
           ([replicate w 1], n) = Inl IndexError"
proof -
  let ?m = "[replicate w True]"
  let ?d = "dilation (astype_int ?m) (square 9)"
  have w: "0 < w" using assms(1) by simp
  have q: "get_overlapping_components [replicate w 1] (BoolArray ?m) 1 = Inr (Some (1, ?m, 1))"
    using get_overlapping_components_uniform [of "Suc 0" w 1] assms(1) by simp
  have p: "(0, 0) \<in> set (positions ?d)"
    using w by (simp add: positions_dilation in_positions astype_int_def)
  have "px (astype_int ?m) (0, 0) \<le> px ?d (0, 0)"
    using w by (intro dilation_ge) (simp_all add: astype_int_def square_def)
  then have "1 \<le> px ?d (0, 0)" using w by (simp add: astype_int_def px_def)
  moreover have "px ?d (0, 0) \<le> 1"
    using _ px_in_concat [OF p] by (rule dilation_le) (rule astype_int_le)
  ultimately have "px ?d (0, 0) = 1" by simp
  then have "1 \<in> set (concat ?d)" using px_in_concat [OF p] by simp
  then have f: "fancy_assign [replicate w 1] ?d 0 = Inl IndexError"
    by (rule fancy_assign_IndexError) simp
  have e: "eq_mask [replicate w 1] 1 = ?m" by (simp add: eq_mask_def)
  have s: "mask_sum ?m = w" "mask_and ?m ?m = ?m"
    using mask_sum_uniform [of "Suc 0" w] by (simp_all add: mask_and_def)
  show ?thesis
    using assms w by (simp add: add_objects_step_def Let_def e s q f del: One_nat_def)
qed

section \<open>The counter at the end of the range of the dtype\<close>

text \<open>
  When the largest label of the base image is the largest value of its unsigned dtype,
  the next usable label wraps to 0: the region is written with the background value.
\<close>

lemma label_row_pair:
  assumes v: "v \<noteq> 0"
  shows "label [[v, 0]] = [[1, 0]]"
proof (rule label_eqI)
  let ?a = "[[v, 0::nat]]"
  show "length [[1, 0::nat]] = length ?a" by simp
  show "length ([[1, 0::nat]] ! i) = length (?a ! i)" if "i < length ?a" for i
    using that by simp
  have pos: "(k, l) \<in> set (positions ?a) \<longleftrightarrow> k = 0 \<and> l < 2" for k l
    by (auto simp: in_positions)
  have px0: "px ?a (0, 0) = v" and px1: "px ?a (0, Suc 0) = 0" by (simp_all add: px_def)
  have only: "q = (0, 0)" if "q \<in> set (positions ?a)" "px ?a q \<noteq> 0" for q
  proof -
    obtain k l where q: "q = (k, l)" by (cases q)
    with that(1) have k: "k = 0" and l: "l < 2" by (simp_all add: pos)
    from l have "l = 0 \<or> l = Suc 0" by auto
    with that(2) q k px1 show ?thesis by auto
  qed
  have cl: "connected_labels ?a"
    unfolding connected_labels_def
  proof (intro ballI impI)
    fix p q assume p: "p \<in> set (positions ?a)" and q: "q \<in> set (positions ?a)"
      and e: "px ?a p \<noteq> 0 \<and> px ?a p = px ?a q"
    from only [OF p] only [OF q] e have "p = q" by simp
    then show "conn8 ?a p q" by (simp add: conn8_refl)
  qed
  have V: "{v} = {u \<in> px ?a ` set (positions ?a). u \<noteq> 0}"
  proof (intro equalityI subsetI)
    fix u assume "u \<in> {v}"
    moreover have "(0, 0) \<in> set (positions ?a)" by (simp add: pos)
    ultimately show "u \<in> {u \<in> px ?a ` set (positions ?a). u \<noteq> 0}"
      using v px0 by (auto simp: image_iff) metis
  next
    fix u assume "u \<in> {u \<in> px ?a ` set (positions ?a). u \<noteq> 0}"
    then obtain p where p: "p \<in> set (positions ?a)" "u = px ?a p" "px ?a p \<noteq> 0" by auto
    from only [OF p(1,3)] p(2) px0 show "u \<in> {v}" by simp
  qed
  fix i j assume ij: "i < length ?a" "j < length (?a ! i)"
  then have i: "i = 0" and j: "j < 2" by simp_all
  from j have "j = 0 \<or> j = Suc 0" by auto
  then show "[[1, 0::nat]] ! i ! j = label_at ?a (i, j)"
  proof
    assume j0: "j = 0"
    have "label_at ?a (0, 0) = card {u \<in> {v}. (\<lambda>_. (0::nat, 0::nat)) u \<le> (0, 0)}"
    proof (rule label_at_first_occurrence [OF cl V])
      show "(0, 0) \<in> set (positions ?a)" by (simp add: pos)
      show "px ?a (0, 0) \<noteq> 0" using v px0 by simp
      fix u assume "u \<in> {v}"
      then show "(0, 0) \<in> set (positions ?a) \<and> px ?a (0, 0) = u
         \<and> (\<forall>q\<in>set (positions ?a). px ?a q = u \<longrightarrow> (0, 0) \<le> q)"
        using v only px0 by (auto simp: pos)
    qed
    with i j0 show ?thesis by simp
  next
    assume j1: "j = Suc 0"
    have "(0, Suc 0) \<in> set (positions ?a)" by (simp add: pos)
    then have "label_at ?a (0, Suc 0) = 0" using px1 by (simp add: label_at_zero_iff)
    with i j1 show ?thesis by simp
  qed
qed

lemma add_nuclei_wrap: "add_nuclei_by_overlapping (Unsigned 16) [[65535, 0]] [[0, 1]] 1000 = Inr [[1, 0]]"
proof -
  have "add_nuclei_loop (Unsigned 16) [[65535, 0]] [[0, 1]] 1000 = Inr ([[65535, 0]], 1)"
    by (simp add: add_nuclei_loop_def add_nuclei_step_def get_maximum_label_def
        cast_dtype_def array_defs Let_def)
  then show ?thesis by (simp add: add_nuclei_by_overlapping_def label_row_pair)
qed

lemma assign_all_True:
  assumes "map length a = replicate h w"
  shows "assign a (replicate h (replicate w True)) v = replicate h (replicate w v)"
proof -
  from assms have "length (map length a) = length (replicate h w)" by simp
  then have la: "length a = h" by simp
  have row: "length (a ! i) = w" if "i < h" for i
  proof -
    from that la have "map length a ! i = length (a ! i)" by simp
    with assms that show ?thesis by simp
  qed
  have r: "map2 (\<lambda>x b. if b then v else x) r (replicate w True) = replicate w v"
    if "length r = w" for r :: "nat list"
    using that by (intro nth_equalityI) simp_all
  show ?thesis
    unfolding assign_def
  proof (rule nth_equalityI)
    show "length (map2 (map2 (\<lambda>x b. if b then v else x)) a (replicate h (replicate w True)))
        = length (replicate h (replicate w v))"
      using la by simp
    fix i assume "i < length (map2 (map2 (\<lambda>x b. if b then v else x)) a
                          (replicate h (replicate w True)))"
    then have i: "i < h" using la by simp
    then show "map2 (map2 (\<lambda>x b. if b then v else x)) a (replicate h (replicate w True)) ! i
        = replicate h (replicate w v) ! i"
      using la r [OF row [OF i]] by simp
  qed
qed

lemma dilation_ones:
  assumes "0 < h" "0 < w"
  shows "set (concat (dilation (replicate h (replicate w 1)) fp)) = {1}"
proof -
  let ?a = "replicate h (replicate w (1::nat))"
  let ?d = "dilation ?a fp"
  have le: "v \<le> 1" if "v \<in> set (concat ?d)" for v
    using _ that
  proof (rule dilation_le)
    fix u assume "u \<in> set (concat ?a)"
    then show "u \<le> 1" by auto
  qed
  have ge: "1 \<le> v" if "v \<in> set (concat ?d)" for v
  proof -
    from that obtain p where p: "p \<in> set (positions ?d)" "v = px ?d p"
      by (auto simp: set_concat_px simp del: set_concat)
    obtain i j where ij: "p = (i, j)" by (cases p)
    from p(1) ij have pa: "(i, j) \<in> set (positions ?a)" by (simp add: positions_dilation)
    then have b: "i < h" "j < w" by (auto simp: in_positions)
    have "px ?a (i, j) \<le> px ?d (i, j)" using b by (intro dilation_ge) simp_all
    with b p ij show ?thesis by (simp add: px_def)
  qed
  have "(0, 0) \<in> set (positions ?d)"
    using assms by (simp add: positions_dilation in_positions)
  then have ne: "px ?d (0, 0) \<in> set (concat ?d)" by (rule px_in_concat)
  show ?thesis
  proof (rule set_eqI)
    fix v show "v \<in> set (concat ?d) \<longleftrightarrow> v \<in> {1}"
    proof
      assume "v \<in> set (concat ?d)"
      with le [of v] ge [of v] show "v \<in> {1}" by simp
    next
      assume "v \<in> {1}"
      moreover from le [OF ne] ge [OF ne] have "px ?d (0, 0) = 1" by simp
      ultimately show "v \<in> set (concat ?d)" using ne by simp
    qed
  qed
qed

lemma add_objects_step_wrap:
  "add_objects_step (Unsigned 16) (replicate 64 (replicate 64 1)) (replicate 64 (replicate 64 True)) 1 1000
       \<lparr>rlabel = 1, area = 4096\<rparr> (replicate 64 (replicate 64 65535), 0)
     = Inr (replicate 64 (replicate 64 0), 1)"
proof -
  let ?b = "replicate 64 (replicate 64 (65535::nat))"
  let ?t = "replicate 64 (replicate 64 True)"
  let ?d = "dilation (replicate 64 (replicate 64 1)) (square 9)"
  have q: "get_overlapping_components ?b (BoolArray ?t) 1 = Inr (Some (1, ?t, 1))"
    by (rule get_overlapping_components_uniform) simp_all
  have d: "set (concat ?d) = {1}"
    by (rule dilation_ones) simp_all
  have "list_all (\<lambda>k. k < length ?b) (concat ?d)"
    unfolding list_all_iff d by simp
  then obtain a where a: "fancy_assign ?b ?d 0 = Inr a"
    unfolding fancy_assign_def by (simp only: if_True)
  from fancy_assign_Inr(1) [OF a] have "map length a = replicate 64 64" by simp
  then have s: "assign a ?t 0 = replicate 64 (replicate 64 0)" by (rule assign_all_True)
  have m: "mask_sum ?t = 4096" by (simp add: mask_sum_uniform)
  have e: "eq_mask (replicate 64 (replicate 64 1)) 1 = ?t" by (simp add: eq_mask_def)
  have n: "mask_and ?t ?t = ?t" by (simp add: mask_and_def)
  have i: "astype_int ?t = replicate 64 (replicate 64 1)" by (simp add: astype_int_def)
  have c: "cast_dtype (Unsigned 16) 0 = 0" "cast_dtype (Unsigned 16) (0 + 1) = 1" by (simp_all add: cast_dtype_def)
  show ?thesis
    unfolding add_objects_step_def Let_def fst_conv snd_conv regionprop.simps e n i m q a s c
    by (simp add: m s)
qed

lemma add_objects_loop_wrap:
  "add_objects_loop (Unsigned 16) (replicate 64 (replicate 64 65535)) (replicate 64 (replicate 64 1)) 1 1000
     = Inr (replicate 64 (replicate 64 0), 1)"
proof -
  have g: "gt0_mask (replicate 64 (replicate 64 (65535::nat))) = replicate 64 (replicate 64 True)"
    by (simp add: gt0_mask_def)
  have mx: "get_maximum_label (replicate 64 (replicate 64 (65535::nat))) = Inr 65535"
    by (simp add: get_maximum_label_uniform)
  have rp: "regionprops (replicate 64 (replicate 64 (1::nat))) = [\<lparr>rlabel = 1, area = 4096\<rparr>]"
    by (simp add: regionprops_uniform)
  have c: "cast_dtype (Unsigned 16) 65536 = 0" by (simp add: cast_dtype_def)
  show ?thesis
    unfolding add_objects_loop_def mx rp g
    using add_objects_step_wrap by (simp add: c)
qed

section \<open>Results\<close>

text \<open>
  C4 (as the code has it). For every array with at least one element and every
  percentage, get_minimum_area_to_remove returns the constant 30: the larger of 4 and
  percentage times the mean region area is computed and then overridden. It raises
  ValueError exactly when the array has no element; an array of background pixels only
  has no region and still yields 30.
\<close>

theorem get_minimum_area_to_remove_const:
  "get_minimum_area_to_remove cc p =
     (if array_size cc = 0 then Inl (ValueError ''connected_components cannot be empty'')
      else Inr 30)"
  by (simp add: get_minimum_area_to_remove_def Let_def)

text \<open>
  C4 (as the spec states it) fails on the one-pixel image holding label 1 with
  percentage 1/10: the mean area is 1, the larger of 4 and 1/10 is 4, the code returns 30.
  On the one-pixel background image, which has no component, no error is raised.
\<close>

theorem get_minimum_area_to_remove_counterexample:
  "regionprops [[1]] = [\<lparr>rlabel = 1, area = 1\<rparr>]
   \<and> max (4::rat) ((1/10) * np_mean (map area (regionprops [[1]]))) = 4
   \<and> get_minimum_area_to_remove [[1]] (1/10) = Inr 30
   \<and> regionprops [[0]] = []
   \<and> get_minimum_area_to_remove [[0]] (1/10) = Inr 30"
  by (simp add: get_minimum_area_to_remove_def regionprops_def np_unique_def count_label_def
      np_mean_def array_size_def Let_def)

text \<open>
  C9. With \<^verbatim>\<open>just_evs=False\<close> fusion_post_processing raises for all dictionaries and
  arguments and returns no label map: when nothing fails before, the return statement reads
  the unbound \<^verbatim>\<open>refined_evs_prediction\<close>. A result is returned only with
  \<^verbatim>\<open>just_evs=True\<close>.
\<close>

theorem fusion_post_processing_just_evs:
  "(\<exists>e. fusion_post_processing pd sd nd args False = Inl e)
   \<and> (\<forall>pi. getitem pd ''original_image'' = Inr oi \<and> getitem sd ''original_image'' = Inr so
          \<and> getitem nd ''original_image'' = Inr no \<and> getitem pd ''mask'' = Inr m
          \<and> getitem sd ''mask'' = Inr sm \<and> getitem nd ''mask'' = Inr nm
          \<and> simple_binary_mask_post_processing m oi args True 30 = Inr pi
        \<longrightarrow> fusion_post_processing pd sd nd args False
              = Inl (UnboundLocalError ''refined_evs_prediction''))
   \<and> (\<forall>r. fusion_post_processing pd sd nd args just_evs = Inr r \<longrightarrow> just_evs)"
proof (intro conjI)
  show "\<exists>e. fusion_post_processing pd sd nd args False = Inl e"
    unfolding fusion_post_processing_def
    by (simp add: bind_err_def split: sum.splits)
  show "\<forall>pi. getitem pd ''original_image'' = Inr oi \<and> getitem sd ''original_image'' = Inr so
          \<and> getitem nd ''original_image'' = Inr no \<and> getitem pd ''mask'' = Inr m
          \<and> getitem sd ''mask'' = Inr sm \<and> getitem nd ''mask'' = Inr nm
          \<and> simple_binary_mask_post_processing m oi args True 30 = Inr pi
        \<longrightarrow> fusion_post_processing pd sd nd args False
              = Inl (UnboundLocalError ''refined_evs_prediction'')"
    unfolding fusion_post_processing_def
    by (simp add: bind_err_def)
  show "\<forall>r. fusion_post_processing pd sd nd args just_evs = Inr r \<longrightarrow> just_evs"
    unfolding fusion_post_processing_def
    by (auto simp: bind_err_Inr split: if_splits)
qed

theorem fusion_post_processing_just_evs_witness:
  "fusion_post_processing example_dict example_dict example_dict () True
     = Inr ([[0, 0], [0, 0]], [[0, 0], [0, 0]])
   \<and> fusion_post_processing example_dict example_dict example_dict () False
     = Inl (UnboundLocalError ''refined_evs_prediction'')"
proof -
  have g: "getitem example_dict ''original_image'' = Inr [[[0, 0], [0, 0]]]"
    "getitem example_dict ''mask'' = Inr [[[0, 0], [0, 0]], [[9/10, 9/10], [0, 0]]]"
    by (simp_all add: getitem_def example_dict_def)
  have s: "simple_binary_mask_post_processing [[[0, 0], [0, 0]], [[9/10, 9/10], [0, 0]]]
             [[[0, 0], [0, 0]]] () True 30 = Inr [[0, 0], [0, 0]]"
    by (rule simple_example) simp_all
  from fusion_post_processing_just_evs
         [of example_dict example_dict example_dict "()" "[[[0, 0], [0, 0]]]" "[[[0, 0], [0, 0]]]"
            "[[[0, 0], [0, 0]]]" "[[[0, 0], [0, 0]], [[9/10, 9/10], [0, 0]]]"
            "[[[0, 0], [0, 0]], [[9/10, 9/10], [0, 0]]]"
            "[[[0, 0], [0, 0]], [[9/10, 9/10], [0, 0]]]" True]
  have "fusion_post_processing example_dict example_dict example_dict () False
     = Inl (UnboundLocalError ''refined_evs_prediction'')"
    using g s by blast
  then show ?thesis by (simp add: fusion_example)
qed

text \<open>
  C8. foi_correction writes into the array it is given and returns that same array, at
  full resolution: every pixel whose value occurs nowhere inside the inset of margin \<open>E\<close>
  (50 or 25 for the two known groups of cell types, 0 otherwise) becomes 0, and every pixel
  whose value occurs inside the inset keeps its value, in the margin too. No other array
  of the store changes.
\<close>

theorem foi_correction_erases:
  assumes "msk < length h" and "nd_rect (h ! msk)"
  shows "fst (foi_correction msk cell_type h) = msk
     \<and> snd (foi_correction msk cell_type h)
        = h[msk := nd_map (\<lambda>v. if in_foi (margin cell_type) (h ! msk) v then v else 0) (h ! msk)]"
proof -
  let ?E = "margin cell_type"
  let ?m = "h ! msk"
  have ids_foi: "set (nd_values (field_of_interest ?m ?E)) = {v. in_foi ?E ?m v}"
    using assms(2) by (rule set_values_foi)
  have "nd_map (\<lambda>x. if x \<in> set (get_nucleus_ids (nd_values ?m))
                      \<and> x \<notin> set (get_nucleus_ids (nd_values (field_of_interest ?m ?E)))
                    then 0 else x) ?m
      = nd_map (\<lambda>v. if in_foi ?E ?m v then v else 0) ?m"
    by (rule nd_map_cong_values) (auto simp: ids_foi set_get_nucleus_ids)
  then show ?thesis
    using assms(1) by (simp add: foi_correction_def Let_def fold_zero_labels)
qed



theorem foi_correction_erases_witness:
  "fst (foi_correction 0 ''BF-C2DL-HSC'' [A2 foi_example]) = 0
   \<and> snd (foi_correction 0 ''BF-C2DL-HSC'' [A2 foi_example])
     = [A2 (replicate 30 (replicate 60 0) @ [replicate 60 3] @ replicate 29 (replicate 60 0))]"
proof -
  have r: "nd_rect ([A2 foi_example] ! 0)"
    by (auto simp: nd_rect_def rect_def foi_example_def ncols_def)
  have f: "(\<lambda>v. if in_foi 25 (A2 foi_example) v then v else 0)
         = (\<lambda>v. if v = 0 \<or> v = 3 then v else 0)"
    by (simp add: foi_example_in_foi)
  have "nd_map (\<lambda>v. if in_foi 25 (A2 foi_example) v then v else 0) (A2 foi_example)
      = A2 (replicate 30 (replicate 60 0) @ [replicate 60 3] @ replicate 29 (replicate 60 0))"
    unfolding f by (simp add: nd_map_def foi_example_def flip: replicate_Suc)
  with foi_correction_erases [of 0 "[A2 foi_example]" "''BF-C2DL-HSC''", OF _ r]
  show ?thesis by (simp add: margin_HSC)
qed

text \<open>
  C10. remove_smaller_areas, refine_objects_by_overlapping, add_objects_by_overlapping
  and add_nuclei_by_overlapping leave the arrays of the caller as they were: whatever the
  arguments, and whether the call returns or raises, every array that was in the store
  before the call is the same after it. The passes write into a copy only.
\<close>

theorem passes_leave_arguments:
  assumes "a < length h"
  shows "snd (remove_smaller_areas_st seeds T h) ! a = h ! a
       \<and> snd (refine_objects_by_overlapping_st b r mx h) ! a = h ! a
       \<and> snd (add_objects_by_overlapping_st dt b s co mn h) ! a = h ! a
       \<and> snd (add_nuclei_by_overlapping_st dt b s mn h) ! a = h ! a"
proof (intro conjI)
  show "snd (remove_smaller_areas_st seeds T h) ! a = h ! a"
    using assms
    by (simp add: remove_smaller_areas_st_def Let_def nth_append fold_cell_frame fold_cell_length)
  show "snd (refine_objects_by_overlapping_st b r mx h) ! a = h ! a"
    using assms
    by (simp add: refine_objects_by_overlapping_st_def Let_def nth_append fold_cell_frame
        fold_cell_length)
  show "snd (add_objects_by_overlapping_st dt b s co mn h) ! a = h ! a"
    using assms
  proof (cases "get_maximum_label ((h @ [h ! b]) ! b)")
    case (Inl e)
    with assms show ?thesis
      by (simp add: add_objects_by_overlapping_st_def Let_def nth_append)
  next
    case (Inr mxl)
    show ?thesis
    proof (cases "fold_err (in_cell (length h) (add_objects_step dt ((h @ [h ! b]) ! s)
                     (gt0_mask ((h @ [h ! b]) ! length h)) co mn))
                   (regionprops ((h @ [h ! b]) ! s)) (h @ [h ! b], cast_dtype dt (mxl + 1))")
      case (Inl e)
      with Inr assms show ?thesis
        by (simp add: add_objects_by_overlapping_st_def Let_def nth_append)
    next
      case r: (Inr st)
      obtain h2 n2 where st: "st = (h2, n2)" by (cases st)
      from r st assms have "h2 ! a = (h @ [h ! b]) ! a" "length h2 = Suc (length h)"
        using fold_err_in_cell_frame [of "length h" _ _ "h @ [h ! b]" "cast_dtype dt (mxl + 1)" h2 n2 a]
          fold_err_in_cell_length [of "length h" _ _ "h @ [h ! b]" "cast_dtype dt (mxl + 1)" h2 n2]
        by simp_all
      with r st Inr assms show ?thesis
        by (simp add: add_objects_by_overlapping_st_def Let_def nth_append)
    qed
  qed
  show "snd (add_nuclei_by_overlapping_st dt b s mn h) ! a = h ! a"
    using assms
  proof (cases "get_maximum_label ((h @ [h ! b]) ! b)")
    case (Inl e)
    with assms show ?thesis
      by (simp add: add_nuclei_by_overlapping_st_def Let_def nth_append)
  next
    case (Inr mxl)
    show ?thesis
    proof (cases "fold_err (in_cell (length h) (add_nuclei_step dt ((h @ [h ! b]) ! s)
                     (gt0_mask ((h @ [h ! b]) ! length h)) mn))
                   (regionprops ((h @ [h ! b]) ! s)) (h @ [h ! b], cast_dtype dt (mxl + 1))")
      case (Inl e)
      with Inr assms show ?thesis
        by (simp add: add_nuclei_by_overlapping_st_def Let_def nth_append)
    next
      case r: (Inr st)
      obtain h2 n2 where st: "st = (h2, n2)" by (cases st)
      from r st assms have "h2 ! a = (h @ [h ! b]) ! a" "length h2 = Suc (length h)"
        using fold_err_in_cell_frame [of "length h" _ _ "h @ [h ! b]" "cast_dtype dt (mxl + 1)" h2 n2 a]
          fold_err_in_cell_length [of "length h" _ _ "h @ [h ! b]" "cast_dtype dt (mxl + 1)" h2 n2]
        by simp_all
      with r st Inr assms show ?thesis
        by (simp add: add_nuclei_by_overlapping_st_def Let_def nth_append)
    qed
  qed
qed

theorem passes_leave_arguments_witness:
  "snd (remove_smaller_areas_st 0 1 [[[1, 0, 2]], [[0, 0, 1]]]) ! 0 = [[1, 0, 2]]
   \<and> snd (refine_objects_by_overlapping_st 0 1 1000 [[[1, 0, 2]], [[0, 0, 1]]]) ! 0 = [[1, 0, 2]]
   \<and> snd (add_objects_by_overlapping_st (Signed 64) 0 1 1 1000 [[[1, 0, 2]], [[0, 0, 1]]]) ! 0
       = [[1, 0, 2]]
   \<and> snd (add_nuclei_by_overlapping_st (Unsigned 16) 0 1 1000 [[[1, 0, 2]], [[0, 0, 1]]]) ! 0
       = [[1, 0, 2]]
   \<and> refine_objects_by_overlapping_st 0 1 1000 [[[1, 0, 2]], [[0, 0, 1]]]
       = (2, [[[1, 0, 2]], [[0, 0, 1]], [[0, 0, 2]]])"
proof -
  have "refine_objects_by_overlapping [[1, 0, 2]] [[0, 0, 1]] 1000 = [[0, 0, 2]]"
    by (simp add: refine_objects_by_overlapping_def refine_step_def array_defs Let_def)
  then have "refine_objects_by_overlapping_st 0 1 1000 [[[1, 0, 2]], [[0, 0, 1]]]
       = (2, [[[1, 0, 2]], [[0, 0, 1]], [[0, 0, 2]]])"
    by (simp add: refine_objects_by_overlapping_st_pure)
  moreover have "(0::nat) < length [[[1, 0, 2]], [[0, 0, 1::nat]]]" by simp
  note passes_leave_arguments [OF this, of 0 1 0 1 1000 "Signed 64" 1 1 1000]
    passes_leave_arguments [OF this, of 0 1 0 1 1000 "Unsigned 16" 1 1 1000]
  ultimately show ?thesis by simp
qed

text \<open>
  C6. remove_smaller_areas raises, and then a ValueError, exactly when the threshold is
  negative or the array has no element. On a label image, where every positive value is
  one connected region, every region of the returned image has more than \<open>T\<close> pixels.
\<close>

theorem remove_smaller_areas_law:
  "((\<exists>e. remove_smaller_areas img T = Inl e) \<longleftrightarrow> T < 0 \<or> array_size img = 0)
   \<and> (\<forall>e. remove_smaller_areas img T = Inl e \<longrightarrow> (\<exists>s. e = ValueError s))
   \<and> (connected_labels img \<longrightarrow>
        (\<forall>out. remove_smaller_areas img T = Inr out \<longrightarrow>
           (\<forall>rp\<in>set (regionprops out). T < int (area rp))))"
proof (intro conjI allI impI ballI)
  show "(\<exists>e. remove_smaller_areas img T = Inl e) \<longleftrightarrow> T < 0 \<or> array_size img = 0"
    by (auto simp: remove_smaller_areas_def Let_def)
next
  fix e assume "remove_smaller_areas img T = Inl e"
  then show "\<exists>s. e = ValueError s"
    by (auto simp: remove_smaller_areas_def Let_def split: if_splits)
next
  fix out rp
  assume inv: "connected_labels img"
    and res: "remove_smaller_areas img T = Inr out"
    and rp: "rp \<in> set (regionprops out)"
  let ?R = "rlabel ` {rp \<in> set (regionprops img). int (area rp) \<le> T}"
  let ?g = "\<lambda>v. if v \<in> ?R then 0 else v"
  let ?f = "map (map ?g) img"
  have out: "out = label ?f" using res by (rule remove_smaller_areas_Inr)
  have pos: "positions ?f = positions img" by (rule positions_map_map)
  have pxf: "px ?f x = ?g (px img x)" if "x \<in> set (positions img)" for x
    using that by (rule px_map_map)
  from rp have "rlabel rp \<in> rlabel ` set (regionprops out)" by simp
  then have "rlabel rp \<in> px out ` set (positions out)" "rlabel rp \<noteq> 0"
    by (simp_all add: regionprops_labels)
  then obtain p where p: "p \<in> set (positions img)" "label_at ?f p = rlabel rp"
    by (auto simp: out positions_label pos px_label)
  with \<open>rlabel rp \<noteq> 0\<close> have nz: "px ?f p \<noteq> 0"
    using label_at_zero_iff [of p ?f] pos by auto
  let ?v = "px img p"
  from nz p have v: "?v \<notin> ?R" "?v \<noteq> 0" "px ?f p = ?v"
    by (auto simp: pxf split: if_splits)
  have "{q \<in> set (positions ?f). conn8 ?f p q} = {q \<in> set (positions img). px img q = ?v}"
  proof (intro equalityI subsetI)
    fix q assume "q \<in> {q \<in> set (positions ?f). conn8 ?f p q}"
    then have q: "q \<in> set (positions img)" "conn8 ?f p q" by (simp_all add: pos)
    then have "px ?f q = ?v" using v by (simp add: conn8_px)
    with q v have "px img q = ?v" by (auto simp: pxf split: if_splits)
    with q show "q \<in> {q \<in> set (positions img). px img q = ?v}" by simp
  next
    fix q assume "q \<in> {q \<in> set (positions img). px img q = ?v}"
    then have q: "q \<in> set (positions img)" "px img q = ?v" by simp_all
    with inv p v have cpq: "conn8 img p q" by (simp add: connected_labels_def)
    have "conn8 ?f p q"
    proof (rule conn8_transfer [OF pos _ cpq])
      fix x y assume "conn8 img p x" "y \<in> set (neighbours img x)"
      then show "px ?f y = px ?f x" using neighbours_px [of y img x] by (simp add: pxf)
    qed
    with q show "q \<in> {q \<in> set (positions ?f). conn8 ?f p q}" by (simp add: pos)
  qed
  then have "count_label out (rlabel rp) = count_label img ?v"
    using count_label_label [of p ?f] p nz by (simp add: out pos count_label_card)
  moreover have "area rp = count_label out (rlabel rp)" using rp by (rule regionprops_area)
  moreover have "T < int (count_label img ?v)"
  proof -
    from v p have "?v \<in> rlabel ` set (regionprops img)"
      by (simp add: regionprops_labels)
    then obtain r where r: "r \<in> set (regionprops img)" "rlabel r = ?v" by auto
    have "\<not> int (area r) \<le> T"
    proof
      assume "int (area r) \<le> T"
      with r have "rlabel r \<in> ?R" by blast
      with r v show False by simp
    qed
    with r show ?thesis by (simp add: regionprops_area)
  qed
  ultimately show "T < int (area rp)" by simp
qed


theorem remove_smaller_areas_law_witness:
  "connected_labels [[1, 0, 2, 2]]
   \<and> remove_smaller_areas [[1, 0, 2, 2]] 1 = Inr [[0, 0, 1, 1]]
   \<and> regionprops [[0, 0, 1, 1]] = [\<lparr>rlabel = 1, area = 2\<rparr>]
   \<and> (1::int) < int (area (hd (regionprops [[0, 0, 1, 1]])))
   \<and> remove_smaller_areas [[1, 0, 2, 2]] (- 1)
       = Inl (ValueError ''area_threshold must be a non-negative integer'')
   \<and> remove_smaller_areas [] 1 = Inl (ValueError ''seeds cannot be empty'')"
proof -
  have r: "remove_smaller_areas [[1, 0, 2, 2]] 1 = Inr [[0, 0, 1, 1]]"
    by (simp add: remove_smaller_areas_def remove_step_def array_defs Let_def label_example_row)
  have rp: "regionprops [[0, 0, 1, 1]] = [\<lparr>rlabel = 1, area = 2\<rparr>]"
    by (simp add: array_defs)
  from remove_smaller_areas_law [of "[[1, 0, 2, 2]]" 1] connected_labels_example r
  have "\<forall>rp\<in>set (regionprops [[0, 0, 1, 1]]). 1 < int (area rp)" by blast
  then have "(1::int) < int (area (hd (regionprops [[0, 0, 1, 1]])))" unfolding rp by simp
  moreover have "remove_smaller_areas [[1, 0, 2, 2]] (- 1)
       = Inl (ValueError ''area_threshold must be a non-negative integer'')"
    "remove_smaller_areas [] 1 = Inl (ValueError ''seeds cannot be empty'')"
    by (simp_all add: remove_smaller_areas_def array_defs)
  ultimately show ?thesis using connected_labels_example r rp by simp
qed

text \<open>
  C5 (as the code has it). add_nuclei_by_overlapping and add_objects_by_overlapping end in
  the canonical relabelling: whenever they return, the result is the labelling of the
  working image, its labels are the integers from 1 to the number of regions, and each
  label is one region of 8-connected pixels. refine_objects_by_overlapping returns its
  working image as it is, with the ids it had.
\<close>

theorem add_passes_relabel:
  "(\<forall>out. add_nuclei_by_overlapping dt base_image nuclei_image min_cell_area = Inr out \<longrightarrow>
        (\<exists>w n. add_nuclei_loop dt base_image nuclei_image min_cell_area = Inr (w, n)
           \<and> out = label w)
        \<and> consecutive_labels out \<and> connected_labels out)
   \<and> (\<forall>out. add_objects_by_overlapping dt' base_image single_channel_image cells_overlap
            min_cell_area = Inr out \<longrightarrow>
        (\<exists>w n. add_objects_loop dt' base_image single_channel_image cells_overlap
            min_cell_area = Inr (w, n) \<and> out = label w)
        \<and> consecutive_labels out \<and> connected_labels out)"
  by (auto simp: add_nuclei_by_overlapping_def add_objects_by_overlapping_def
      consecutive_labels_label connected_labels_label split: sum.splits)


theorem add_passes_relabel_witness:
  "add_nuclei_by_overlapping (Unsigned 16) [[1, 0]] [[0, 1]] 1000 = Inr [[1, 2]]
   \<and> add_objects_by_overlapping (Signed 64) [[1, 0]] [[0, 1]] 1 1000 = Inr [[1, 2]]
   \<and> consecutive_labels [[1, 2]] \<and> connected_labels [[1, 2]]"
  using add_passes_relabel [of "Unsigned 16" "[[1, 0]]" "[[0, 1]]" 1000 "Signed 64" "[[0, 1]]" 1]
    add_nuclei_pair add_objects_pair by blast

text \<open>
  C5 (as the spec states it) fails for refine_objects_by_overlapping: on a base image with
  regions 1 and 2, of which only region 2 meets the refiner, the pass returns an image whose
  only label is 2.
\<close>

theorem refine_keeps_labels_counterexample:
  "refine_objects_by_overlapping [[1, 0, 2]] [[0, 0, 1]] 1000 = [[0, 0, 2]]
   \<and> map rlabel (regionprops [[0, 0, 2]]) = [2]
   \<and> \<not> consecutive_labels [[0, 0, 2]]"
  by (simp add: refine_objects_by_overlapping_def refine_step_def consecutive_labels_def
      array_defs Let_def)

text \<open>
  C7 (as the code has it). get_overlapping_components relabels the image it is given and
  scans the labels 1, 2, ... of that relabelling in ascending order, as 16-bit values.
  For an image with fewer than \<open>2^16\<close> components and a boolean query mask it returns the
  first of these labels whose component qualifies (overlap ratio positive and at most the
  maximum, at least 4000 pixels), with the mask of the component and the ratio, and
  all-None when no label qualifies. An integer query mask raises ValueError.
\<close>

theorem get_overlapping_components_first:
  assumes N: "ncomponents img < 65536"
  shows "get_overlapping_components img (IntArray m) mx
           = Inl (ValueError ''Mask of the marker has to be boolean.'')
     \<and> (\<forall>l. 1 \<le> l \<and> l \<le> ncomponents img \<and> qualifies (label img) mk mx l
           \<and> (\<forall>k. 1 \<le> k \<and> k < l \<longrightarrow> \<not> qualifies (label img) mk mx k)
         \<longrightarrow> get_overlapping_components img (BoolArray mk) mx
             = Inr (Some (l, eq_mask (label img) l, overlap_ratio (label img) mk l)))
     \<and> ((\<forall>l. 1 \<le> l \<and> l \<le> ncomponents img \<longrightarrow> \<not> qualifies (label img) mk mx l)
         \<longrightarrow> get_overlapping_components img (BoolArray mk) mx = Inr None)"
proof (intro conjI allI impI)
  show "get_overlapping_components img (IntArray m) mx
           = Inl (ValueError ''Mask of the marker has to be boolean.'')"
    by (simp add: get_overlapping_components_def)
next
  fix l
  assume l: "1 \<le> l \<and> l \<le> ncomponents img \<and> qualifies (label img) mk mx l
           \<and> (\<forall>k. 1 \<le> k \<and> k < l \<longrightarrow> \<not> qualifies (label img) mk mx k)"
  let ?P = "\<lambda>l. l mod 65536 \<noteq> 0 \<and> qualifies (label img) mk mx (l mod 65536)"
  have small: "v mod 65536 = v" if "v \<in> set (np_unique (label img))" for v
    using label_le_ncomponents [OF that] N by simp
  have "find ?P (np_unique (label img)) = Some l"
  proof (rule find_least)
    show "sorted (np_unique (label img))" "distinct (np_unique (label img))"
      by (rule sorted_np_unique, rule distinct_np_unique)
    show lin: "l \<in> set (np_unique (label img))" using l by (simp add: label_in_unique)
    show "?P l" using l small [OF lin] by simp
    fix y assume "y \<in> set (np_unique (label img))" "y < l"
    then show "\<not> ?P y" using l small [of y] by (cases "y = 0") simp_all
  qed
  moreover have "l mod 65536 = l" using l N by simp
  ultimately show "get_overlapping_components img (BoolArray mk) mx
             = Inr (Some (l, eq_mask (label img) l, overlap_ratio (label img) mk l))"
    by (simp add: get_overlapping_components_def Let_def overlap_scan_find)
next
  assume none: "\<forall>l. 1 \<le> l \<and> l \<le> ncomponents img \<longrightarrow> \<not> qualifies (label img) mk mx l"
  let ?P = "\<lambda>l. l mod 65536 \<noteq> 0 \<and> qualifies (label img) mk mx (l mod 65536)"
  have "\<not> ?P v" if "v \<in> set (np_unique (label img))" for v
  proof -
    from label_le_ncomponents [OF that] N have "v mod 65536 = v" "v \<le> ncomponents img" by simp_all
    with none show ?thesis by (cases "v = 0") simp_all
  qed
  then have "find ?P (np_unique (label img)) = None" by (simp add: find_None_iff)
  then show "get_overlapping_components img (BoolArray mk) mx = Inr None"
    by (simp add: get_overlapping_components_def Let_def overlap_scan_find)
qed



theorem get_overlapping_components_first_witness:
  "ncomponents (replicate 64 (replicate 64 2)) < 65536
   \<and> qualifies (label (replicate 64 (replicate 64 2))) (replicate 64 (replicate 64 True)) 1 1
   \<and> get_overlapping_components (replicate 64 (replicate 64 2))
        (BoolArray (replicate 64 (replicate 64 True))) 1
      = Inr (Some (1, replicate 64 (replicate 64 True), 1))"
proof -
  let ?img = "replicate 64 (replicate 64 (2::nat))"
  let ?mk = "replicate 64 (replicate 64 True)"
  have n: "ncomponents ?img = 1" by (simp add: ncomponents_uniform)
  have l: "label ?img = replicate 64 (replicate 64 1)" by (simp add: label_uniform)
  have r: "overlap_ratio (label ?img) ?mk 1 = 1"
    unfolding l by (simp add: overlap_ratio_def uniform_simps)
  have q: "qualifies (label ?img) ?mk 1 1"
    unfolding qualifies_def r unfolding l by (simp add: uniform_simps)
  have e: "eq_mask (label ?img) 1 = ?mk" unfolding l by (simp add: eq_mask_def)
  from get_overlapping_components_first [of ?img ?img 1 ?mk] n q
  have "get_overlapping_components ?img (BoolArray ?mk) 1
      = Inr (Some (1, eq_mask (label ?img) 1, overlap_ratio (label ?img) ?mk 1))"
    by simp
  with n q show ?thesis by (simp only: e r) simp
qed


text \<open>
  C7 (as the spec states it) fails on an image of 64 by 64 pixels that all hold label 2,
  queried with the full mask: the only label of the image, 2, qualifies and 1 does not
  occur in it, yet the label returned is 1, the label of the internal relabelling.
\<close>

theorem get_overlapping_components_counterexample:
  "np_unique (replicate 64 (replicate 64 2)) = [2]
   \<and> qualifies (replicate 64 (replicate 64 2)) (replicate 64 (replicate 64 True)) 1 2
   \<and> \<not> qualifies (replicate 64 (replicate 64 2)) (replicate 64 (replicate 64 True)) 1 1
   \<and> get_overlapping_components (replicate 64 (replicate 64 2))
        (BoolArray (replicate 64 (replicate 64 True))) 1
      = Inr (Some (1, replicate 64 (replicate 64 True), 1))"
  by (simp add: get_overlapping_components_uniform qualifies_def overlap_ratio_def uniform_simps)

text \<open>
  C1 (as the code has it). Take a region of the single-channel image, at its turn in the
  loop of add_objects_by_overlapping, that overlaps the foreground of the base image, and
  let the largest label of the base image plus the number of regions of the single-channel
  image lie in the non-negative range of the dtype of the base image, so that the counter
  does not wrap. If a component of the relabelled working image qualifies for the region, which
  asks for at least 4000 pixels whatever the minimum host area passed in (at most 4000),
  and the image has at least two rows, the step returns, the pixels of the region hold the
  next usable label afterwards, the counter moves on by one, and that label is positive
  and occurs neither in the working image before the step nor in the base image. If every
  component whose overlap ratio is positive and at most the maximum has fewer than 4000
  pixels, the step takes no action: working image and counter stay as they were.
\<close>

theorem add_objects_stamps:
  assumes regs: "regionprops sc = pre @ rp # post"
    and mx: "get_maximum_label base = Inr mxl"
    and fits: "mxl + length (regionprops sc) < 2 ^ value_bits dt"
    and st: "fold_err (add_objects_step dt sc (gt0_mask base) co mn) pre
               (base, cast_dtype dt (mxl + 1)) = Inr (img, n)"
    and shape: "same_shape sc base"
    and ov: "0 < mask_sum (mask_and (eq_mask sc (rlabel rp)) (gt0_mask base))"
  shows "(2 \<le> length base \<and> mn \<le> 4000
          \<and> (\<exists>l. 1 \<le> l \<and> l \<le> ncomponents img \<and> l < 65536
                 \<and> qualifies (label img) (eq_mask sc (rlabel rp)) co l)
          \<longrightarrow> (\<exists>img'. add_objects_step dt sc (gt0_mask base) co mn rp (img, n)
                        = Inr (img', cast_dtype dt (n + 1))
                   \<and> (\<forall>p\<in>set (positions sc). px sc p = rlabel rp \<longrightarrow> px img' p = n)
                   \<and> 0 < n \<and> n \<notin> set (concat img) \<and> n \<notin> set (concat base)))
       \<and> ((\<forall>l. 0 < overlap_ratio (label img) (eq_mask sc (rlabel rp)) l
                \<and> overlap_ratio (label img) (eq_mask sc (rlabel rp)) l \<le> co
                \<longrightarrow> mask_sum (eq_mask (label img) l) < 4000)
          \<longrightarrow> add_objects_step dt sc (gt0_mask base) co mn rp (img, n) = Inr (img, n))"
proof (intro conjI impI)
  let ?cur = "eq_mask sc (rlabel rp)"
  assume "\<forall>l. 0 < overlap_ratio (label img) ?cur l \<and> overlap_ratio (label img) ?cur l \<le> co
                \<longrightarrow> mask_sum (eq_mask (label img) l) < 4000"
  then have "\<not> qualifies (label img) ?cur co l" for l
    by (auto simp: qualifies_def)
  then have "get_overlapping_components img (BoolArray ?cur) co = Inr None"
    by (rule overlap_query_none)
  with ov show "add_objects_step dt sc (gt0_mask base) co mn rp (img, n) = Inr (img, n)"
    by (simp add: add_objects_step_def Let_def)
next
  let ?cur = "eq_mask sc (rlabel rp)"
  assume h: "2 \<le> length base \<and> mn \<le> 4000
          \<and> (\<exists>l. 1 \<le> l \<and> l \<le> ncomponents img \<and> l < 65536
                 \<and> qualifies (label img) ?cur co l)"
  then have rows: "2 \<le> length base" and mn: "mn \<le> 4000" by simp_all
  from h obtain l where host: "1 \<le> l" "l \<le> ncomponents img" "l < 65536"
    "qualifies (label img) ?cur co l" by blast
  have sh0: "map length sc = map length base" using shape by (simp add: same_shape_def)
  have len: "length (regionprops sc) = length pre + 1 + length post" by (simp add: regs)
  have "value_bits dt \<le> dtype_bits dt" by (cases dt) simp_all
  then have "(2::nat) ^ value_bits dt \<le> 2 ^ dtype_bits dt"
    by (rule power_increasing) simp
  with fits have "mxl + length (regionprops sc) < 2 ^ dtype_bits dt" by (rule less_le_trans)
  with len have f0: "mxl + 1 < 2 ^ dtype_bits dt"
    and f1: "mxl + 1 + length pre < 2 ^ dtype_bits dt"
    by simp_all
  from f0 have c0: "cast_dtype dt (mxl + 1) = mxl + 1" by (rule cast_dtype_id)
  have below0: "v < mxl + 1" if "v \<in> set (concat base)" for v
    using get_maximum_label_Inr [OF mx that] by simp
  from add_objects_prefix_inv [OF st [unfolded c0] sh0 below0 f1]
  have inv: "map length img = map length base" "\<And>v. v \<in> set (concat img) \<Longrightarrow> v < n"
    "mxl + 1 \<le> n" "n \<le> mxl + 1 + length pre"
    by auto
  from inv(4) f1 have "n < 2 ^ dtype_bits dt" by simp
  then have cn: "cast_dtype dt n = n" by (rule cast_dtype_id)
  from host obtain l' r where
    q: "get_overlapping_components img (BoolArray ?cur) co = Inr (Some (l', eq_mask (label img) l', r))"
    and big: "4000 \<le> mask_sum (eq_mask (label img) l')"
    using overlap_query_found [of l img ?cur co] by auto
  from inv(1) rows have "2 \<le> length img" using map_eq_imp_length_eq by fastforce
  then obtain a where a: "fancy_assign img (dilation (astype_int ?cur) (square 9)) 0 = Inr a"
    using fancy_assign_dilated by blast
  let ?img' = "assign a ?cur n"
  from q big mn a ov have step: "add_objects_step dt sc (gt0_mask base) co mn rp (img, n)
      = Inr (?img', cast_dtype dt (n + 1))"
    by (simp add: add_objects_step_def Let_def cn)
  have sha: "map length a = map length sc"
    using fancy_assign_Inr(1) [OF a] inv(1) sh0 by simp
  have "px ?img' p = n" if "p \<in> set (positions sc)" "px sc p = rlabel rp" for p
  proof -
    have "positions a = positions sc" using sha by (rule positions_shape)
    with that sha show ?thesis
      by (simp add: px_assign shape_eq_mask px_eq_mask)
  qed
  moreover have "n \<notin> set (concat img)" using inv(2) by auto
  moreover have "n \<notin> set (concat base)" using below0 inv(3) by fastforce
  moreover have "0 < n" using inv(3) by simp
  ultimately show "\<exists>img'. add_objects_step dt sc (gt0_mask base) co mn rp (img, n)
                        = Inr (img', cast_dtype dt (n + 1))
                   \<and> (\<forall>p\<in>set (positions sc). px sc p = rlabel rp \<longrightarrow> px img' p = n)
                   \<and> 0 < n \<and> n \<notin> set (concat img) \<and> n \<notin> set (concat base)"
    using step by blast
qed

theorem add_objects_stamps_witness:
  "regionprops (replicate 64 (replicate 64 1)) = [\<lparr>rlabel = 1, area = 4096\<rparr>]
   \<and> get_maximum_label (replicate 64 (replicate 64 1)) = Inr 1
   \<and> 0 < mask_sum (mask_and (eq_mask (replicate 64 (replicate 64 1)) 1)
                       (gt0_mask (replicate 64 (replicate 64 1))))
   \<and> ncomponents (replicate 64 (replicate 64 1)) = 1
   \<and> qualifies (label (replicate 64 (replicate 64 1)))
         (eq_mask (replicate 64 (replicate 64 1)) 1) 1 1
   \<and> (\<exists>img'. add_objects_step (Signed 64) (replicate 64 (replicate 64 1))
                 (gt0_mask (replicate 64 (replicate 64 1))) 1 1000
                 \<lparr>rlabel = 1, area = 4096\<rparr> (replicate 64 (replicate 64 1), 2) = Inr (img', 3)
              \<and> px img' (0, 0) = 2 \<and> px img' (63, 63) = 2)
   \<and> regionprops (replicate 40 (replicate 40 1)) = [\<lparr>rlabel = 1, area = 1600\<rparr>]
   \<and> mask_sum (eq_mask (label (replicate 40 (replicate 40 1))) 1) = 1600
   \<and> add_objects_step (Signed 64) (replicate 40 (replicate 40 1))
        (gt0_mask (replicate 40 (replicate 40 1))) 1 1000
        \<lparr>rlabel = 1, area = 1600\<rparr> (replicate 40 (replicate 40 1), 2)
      = Inr (replicate 40 (replicate 40 1), 2)"
proof -
  let ?u = "replicate 64 (replicate 64 (1::nat))"
  let ?rp = "\<lparr>rlabel = 1, area = 4096\<rparr>"
  have rp: "regionprops ?u = [] @ ?rp # []" by (simp add: regionprops_uniform)
  have mx: "get_maximum_label ?u = Inr 1" by (simp add: get_maximum_label_uniform)
  have fits: "1 + length (regionprops ?u) < 2 ^ value_bits (Signed 64)"
    by (simp add: regionprops_uniform)
  have st: "fold_err (add_objects_step (Signed 64) ?u (gt0_mask ?u) 1 1000) []
              (?u, cast_dtype (Signed 64) (1 + 1)) = Inr (?u, 2)"
    by (simp add: cast_dtype_def)
  have sh: "same_shape ?u ?u" by (simp add: same_shape_def)
  have ov: "0 < mask_sum (mask_and (eq_mask ?u (rlabel ?rp)) (gt0_mask ?u))"
    by (simp add: uniform_simps)
  have n: "ncomponents ?u = 1" by (simp add: ncomponents_uniform)
  have q: "qualifies (label ?u) (eq_mask ?u (rlabel ?rp)) 1 1"
    using qualifies_uniform [of 64 64] by (simp add: label_uniform eq_mask_def)
  have host: "2 \<le> length ?u \<and> (1000::nat) \<le> 4000
      \<and> (\<exists>l. 1 \<le> l \<and> l \<le> ncomponents ?u \<and> l < 65536
             \<and> qualifies (label ?u) (eq_mask ?u (rlabel ?rp)) 1 l)"
    using n q by auto
  have p: "(0, 0) \<in> set (positions ?u)" "(63, 63) \<in> set (positions ?u)"
    "px ?u (0, 0) = rlabel ?rp" "px ?u (63, 63) = rlabel ?rp"
    by (simp_all add: in_positions px_def)
  have c3: "cast_dtype (Signed 64) (2 + 1) = 3" by (simp add: cast_dtype_def)
  from add_objects_stamps [OF rp mx fits st sh ov] host
  have "\<exists>img'. add_objects_step (Signed 64) ?u (gt0_mask ?u) 1 1000 ?rp (?u, 2)
                  = Inr (img', cast_dtype (Signed 64) (2 + 1))
           \<and> (\<forall>p\<in>set (positions ?u). px ?u p = rlabel ?rp \<longrightarrow> px img' p = 2)"
    by blast
  with p have big: "\<exists>img'. add_objects_step (Signed 64) ?u (gt0_mask ?u) 1 1000 ?rp (?u, 2) = Inr (img', 3)
           \<and> px img' (0, 0) = 2 \<and> px img' (63, 63) = 2"
    unfolding c3 by fastforce
  let ?v = "replicate 40 (replicate 40 (1::nat))"
  let ?rq = "\<lparr>rlabel = 1, area = 1600\<rparr>"
  have rq: "regionprops ?v = [] @ ?rq # []" by (simp add: regionprops_uniform)
  have mxv: "get_maximum_label ?v = Inr 1" by (simp add: get_maximum_label_uniform)
  have fitsv: "1 + length (regionprops ?v) < 2 ^ value_bits (Signed 64)"
    by (simp add: regionprops_uniform)
  have stv: "fold_err (add_objects_step (Signed 64) ?v (gt0_mask ?v) 1 1000) []
              (?v, cast_dtype (Signed 64) (1 + 1)) = Inr (?v, 2)"
    by (simp add: cast_dtype_def)
  have shv: "same_shape ?v ?v" by (simp add: same_shape_def)
  have ovv: "0 < mask_sum (mask_and (eq_mask ?v (rlabel ?rq)) (gt0_mask ?v))"
    by (simp add: uniform_simps)
  have area: "mask_sum (eq_mask (label ?v) l) = (if l = 1 then 1600 else 0)" for l
    by (simp add: uniform_simps)
  have small: "\<forall>l. 0 < overlap_ratio (label ?v) (eq_mask ?v (rlabel ?rq)) l
                \<and> overlap_ratio (label ?v) (eq_mask ?v (rlabel ?rq)) l \<le> 1
                \<longrightarrow> mask_sum (eq_mask (label ?v) l) < 4000"
    using area by simp
  from add_objects_stamps [OF rq mxv fitsv stv shv ovv] small
  have none: "add_objects_step (Signed 64) ?v (gt0_mask ?v) 1 1000 ?rq (?v, 2) = Inr (?v, 2)"
    by blast
  from rp mx ov n q big rq area [of 1] none show ?thesis by simp
qed

text \<open>
  C1 (as the spec states it) fails when the host has between 1000 and 3999 pixels. Base and
  single-channel image are 32 by 32 pixels of label 1: the region overlaps the base, the
  one base component has overlap ratio 1 and 1024 pixels, and the step leaves the working
  image and the counter as they were: no pixel is zeroed, no new label is given. It also
  fails where the counter leaves the range of the dtype. On a 16-bit base image of 64 by
  64 pixels of label 65535 the next usable label wraps to 0: the region, which lies on a
  host of 4096 pixels, is written with 0, and the result has no region at all.
\<close>

theorem add_objects_counterexample:
  "regionprops (replicate 32 (replicate 32 1)) = [\<lparr>rlabel = 1, area = 1024\<rparr>]
   \<and> 0 < mask_sum (mask_and (eq_mask (replicate 32 (replicate 32 1)) 1)
                       (gt0_mask (replicate 32 (replicate 32 1))))
   \<and> np_unique (label (replicate 32 (replicate 32 1))) = [1]
   \<and> overlap_ratio (label (replicate 32 (replicate 32 1)))
         (eq_mask (replicate 32 (replicate 32 1)) 1) 1 = 1
   \<and> mask_sum (eq_mask (label (replicate 32 (replicate 32 1))) 1) = 1024
   \<and> add_objects_step (Signed 64) (replicate 32 (replicate 32 1))
         (gt0_mask (replicate 32 (replicate 32 1)))
         1 1000 \<lparr>rlabel = 1, area = 1024\<rparr> (replicate 32 (replicate 32 1), 2)
       = Inr (replicate 32 (replicate 32 1), 2)
   \<and> add_objects_loop (Signed 64) (replicate 32 (replicate 32 1)) (replicate 32 (replicate 32 1)) 1 1000
       = Inr (replicate 32 (replicate 32 1), 2)
   \<and> get_maximum_label (replicate 64 (replicate 64 65535)) = Inr 65535
   \<and> mask_sum (eq_mask (label (replicate 64 (replicate 64 65535))) 1) = 4096
   \<and> add_objects_loop (Unsigned 16) (replicate 64 (replicate 64 65535)) (replicate 64 (replicate 64 1))
         1 1000
       = Inr (replicate 64 (replicate 64 0), 1)
   \<and> add_objects_by_overlapping (Unsigned 16) (replicate 64 (replicate 64 65535))
         (replicate 64 (replicate 64 1)) 1 1000
       = Inr (replicate 64 (replicate 64 0))"
proof -
  let ?u = "replicate 32 (replicate 32 (1::nat))"
  have g: "get_overlapping_components ?u (BoolArray (replicate 32 (replicate 32 True))) 1 = Inr None"
    by (rule get_overlapping_components_small) simp_all
  have s: "add_objects_step (Signed 64) ?u (gt0_mask ?u) 1 1000 \<lparr>rlabel = 1, area = 1024\<rparr> (?u, 2)
       = Inr (?u, 2)"
    using g by (simp add: add_objects_step_def Let_def uniform_simps)
  have "add_objects_loop (Signed 64) ?u ?u 1 1000 = Inr (?u, 2)"
    using s [unfolded One_nat_def]
    by (simp add: add_objects_loop_def get_maximum_label_uniform regionprops_uniform
        cast_dtype_def numeral_2_eq_2 [symmetric])
  moreover have "add_objects_by_overlapping (Unsigned 16) (replicate 64 (replicate 64 65535))
         (replicate 64 (replicate 64 1)) 1 1000
       = Inr (replicate 64 (replicate 64 0))"
    by (simp add: add_objects_by_overlapping_def add_objects_loop_wrap label_zero
        del: One_nat_def)
  moreover have "get_maximum_label (replicate 64 (replicate 64 (65535::nat))) = Inr 65535"
    by (simp add: get_maximum_label_uniform)
  moreover have "mask_sum (eq_mask (label (replicate 64 (replicate 64 (65535::nat)))) 1) = 4096"
    by (simp add: uniform_simps)
  ultimately show ?thesis
    using s add_objects_loop_wrap by (simp add: overlap_ratio_def uniform_simps)
qed

text \<open>
  C3, evaluated where the code departs from it. The base image is canonical and its one
  region, the host, has label 1 and 1024 pixels. The first nuclei region meets no
  foreground and gets the fresh label 2. The second lies on the host: the query relabels
  the working image, where the host is now component 2, and the union of host and region
  is written with 2, not with the host's label 1. It now shares its label with the first
  region, which touches it, and the final relabelling returns one single region.
\<close>

theorem add_nuclei_relabelled_id:
  "px nuclei_base (1, 0) = 1
   \<and> get_maximum_label nuclei_base = Inr 1
   \<and> regionprops nuclei_regions = [\<lparr>rlabel = 1, area = 32\<rparr>, \<lparr>rlabel = 2, area = 1024\<rparr>]
   \<and> add_nuclei_step (Unsigned 16) nuclei_regions (gt0_mask nuclei_base) 1000 \<lparr>rlabel = 1, area = 32\<rparr>
        (nuclei_base, 2) = Inr (bands 1 32 32 2 1, 3)
   \<and> label (bands 1 32 32 2 1) = bands 1 32 32 1 2
   \<and> add_nuclei_step (Unsigned 16) nuclei_regions (gt0_mask nuclei_base) 1000 \<lparr>rlabel = 2, area = 1024\<rparr>
        (bands 1 32 32 2 1, 3) = Inr (bands 1 32 32 2 2, 3)
   \<and> add_nuclei_loop (Unsigned 16) nuclei_base nuclei_regions 1000 = Inr (bands 1 32 32 2 2, 3)
   \<and> add_nuclei_by_overlapping (Unsigned 16) nuclei_base nuclei_regions 1000 = Inr (bands 1 32 32 1 1)
   \<and> label (bands 1 32 32 2 1) \<noteq> bands 1 32 32 1 1"
proof -
  have "px nuclei_base (1, 0) = 1"
    by (simp add: nuclei_base_def bands_def px_def)
  moreover have "label (bands 1 32 32 2 1) = bands 1 32 32 1 (2::nat)"
    by (simp add: label_bands)
  moreover have "add_nuclei_by_overlapping (Unsigned 16) nuclei_base nuclei_regions 1000
      = Inr (bands 1 32 32 1 1)"
    by (simp add: add_nuclei_by_overlapping_def nuclei_loop label_bands_same del: One_nat_def)
  moreover have "bands 1 32 32 1 (2::nat) \<noteq> bands 1 32 32 1 1"
    by (simp add: bands_def)
  ultimately show ?thesis
    using get_maximum_label_nuclei_base regionprops_nuclei_regions nuclei_step_A nuclei_step_B
      nuclei_loop by (simp del: One_nat_def)
qed

end
